theory Spec2Isabelle
  imports Complex_Main "HOL-Library.Word" "HOL-Library.Monad_Syntax"
begin

unbundle bit_operations_syntax

section \<open>Numbers of the C++ program\<close>

text \<open>
  The program computes with \<^verbatim>\<open>double\<close>, \<^verbatim>\<open>int\<close> (32 bits, signed) and
  \<^verbatim>\<open>uint32_t\<close>/\<^verbatim>\<open>uint16_t\<close>/\<^verbatim>\<open>uint8_t\<close>.

  \<^item> The unsigned types are words; their arithmetic wraps.
  \<^item> An \<^verbatim>\<open>int\<close> is a HOL \<open>int\<close>. Signed overflow is undefined in C++, so every
    \<^verbatim>\<open>int\<close> addition and subtraction of the model is checked and yields \<open>None\<close>
    when the exact result leaves the 32-bit range.
  \<^item> A \<^verbatim>\<open>double\<close> is the HOL \<open>real\<close> it denotes. Every product, quotient and sum of
    two of them is the exact result rounded to binary64 by \<open>fl\<close> below: to the nearest
    number with a 53-bit significand, exact halves to the even significand, with the
    spacing of the subnormal numbers below \<open>2 ^ - 1022\<close>. A conversion from
    \<^verbatim>\<open>int\<close> is exact. Where a function of the program takes a
    \<^verbatim>\<open>double\<close> from outside, the parameter \<open>bpm\<close> of the constructor and the argument of
    the stream, the model takes a \<open>real\<close> and computes with \<open>fl\<close> of it, the
    \<^verbatim>\<open>double\<close> that the parameter holds; on a binary64 number \<open>fl\<close> is the identity.
  \<^item> A conversion from \<^verbatim>\<open>double\<close> to an integer type truncates towards zero and is
    undefined in C++ when the truncated value does not fit the target type; the model
    yields \<open>None\<close> there. A division by zero leaves the finite numbers, so the model
    yields \<open>None\<close> for it as well. Overflow to infinity is not modelled apart: where a
    result of the program would be infinite, the model has a finite number above
    \<open>2 ^ 1023\<close>, and in this program each such value reaches a conversion to an integer
    type, which is undefined for both.
\<close>

type_synonym u8 = "8 word"
type_synonym u16 = "16 word"
type_synonym u32 = "32 word"

definition INT_MIN :: int where
  "INT_MIN = - 2147483648"

definition INT_MAX :: int where
  "INT_MAX = 2147483647"

text \<open>\<^verbatim>\<open>const int PREVIEW_LATENCY_COMPENSATION = -64;\<close>\<close>

definition PREVIEW_LATENCY_COMPENSATION :: int where
  "PREVIEW_LATENCY_COMPENSATION = - 64"

subsection \<open>Rounding to binary64\<close>

definition pow2 :: "int \<Rightarrow> real" where
  "pow2 e = (if 0 \<le> e then 2 ^ nat e else 1 / 2 ^ nat (- e))"

text \<open>
  The binary exponent of a positive number: the \<open>e\<close> with \<open>2 ^ e \<le> x < 2 ^ (e + 1)\<close>, found
  by halving or doubling until the number lies between 1 and 2.
\<close>

function norm_exp :: "real \<Rightarrow> int" where
  "norm_exp x =
     (if x \<le> 0 then 0
      else if 2 \<le> x then norm_exp (x / 2) + 1
      else if x < 1 then norm_exp (x * 2) - 1
      else 0)"
  by pat_completeness auto
termination
proof (relation "measure (\<lambda>x. nat \<bar>\<lfloor>log 2 x\<rfloor>\<bar>)")
  show "wf (measure (\<lambda>x. nat \<bar>\<lfloor>log 2 x\<rfloor>\<bar>))"
    by simp
next
  fix x :: real
  assume "\<not> x \<le> 0" and "2 \<le> x"
  then have "log 2 (x / 2) = log 2 x - 1"
    by (simp add: log_divide)
  then have a: "\<lfloor>log 2 (x / 2)\<rfloor> = \<lfloor>log 2 x\<rfloor> - 1"
    by simp
  from \<open>2 \<le> x\<close> have "1 \<le> log 2 x"
    by (simp add: le_log_iff)
  then have b: "1 \<le> \<lfloor>log 2 x\<rfloor>"
    by (simp only: le_floor_iff of_int_1)
  show "(x / 2, x) \<in> measure (\<lambda>x. nat \<bar>\<lfloor>log 2 x\<rfloor>\<bar>)"
    unfolding in_measure a using b by linarith
next
  fix x :: real
  assume "\<not> x \<le> 0" and "x < 1"
  then have "log 2 (x * 2) = log 2 x + 1"
    by (simp add: log_mult)
  then have a: "\<lfloor>log 2 (x * 2)\<rfloor> = \<lfloor>log 2 x\<rfloor> + 1"
    by simp
  from \<open>\<not> x \<le> 0\<close> \<open>x < 1\<close> have "log 2 x < 0"
    by simp
  then have b: "\<lfloor>log 2 x\<rfloor> < 0"
    by (simp only: floor_less_iff of_int_0)
  show "(x * 2, x) \<in> measure (\<lambda>x. nat \<bar>\<lfloor>log 2 x\<rfloor>\<bar>)"
    unfolding in_measure a using b by linarith
qed

declare norm_exp.simps [simp del]

text \<open>To the nearest integer, exact halves to the even one.\<close>

definition round_half_even :: "real \<Rightarrow> int" where
  "round_half_even y =
     (if frac y < 1 / 2 then \<lfloor>y\<rfloor>
      else if 1 / 2 < frac y then \<lfloor>y\<rfloor> + 1
      else if even \<lfloor>y\<rfloor> then \<lfloor>y\<rfloor> else \<lfloor>y\<rfloor> + 1)"

text \<open>
  The binary64 number nearest to \<open>x\<close>: the multiple of the spacing \<open>q\<close> of the binary64
  numbers around \<open>x\<close> that is nearest to \<open>x\<close>.
\<close>

definition fl :: "real \<Rightarrow> real" where
  "fl x =
     (let q = pow2 (max (norm_exp \<bar>x\<bar>) (- 1022) - 52)
      in of_int (round_half_even (x / q)) * q)"

text \<open>\<^verbatim>\<open>a * b\<close>, \<^verbatim>\<open>a / b\<close> for a \<open>b\<close> other than zero, and \<^verbatim>\<open>a + b\<close> on \<^verbatim>\<open>double\<close>.\<close>

definition fmul :: "real \<Rightarrow> real \<Rightarrow> real" where
  "fmul a b = fl (a * b)"

definition fdiv :: "real \<Rightarrow> real \<Rightarrow> real" where
  "fdiv a b = fl (a / b)"

definition fadd :: "real \<Rightarrow> real \<Rightarrow> real" where
  "fadd a b = fl (a + b)"

subsection \<open>Conversions and checked arithmetic\<close>

text \<open>Truncation towards zero, the rule of every floating-to-integer conversion.\<close>

definition trunc :: "real \<Rightarrow> int" where
  "trunc x = (if 0 \<le> x then \<lfloor>x\<rfloor> else \<lceil>x\<rceil>)"

text \<open>\<^verbatim>\<open>(uint32_t)x\<close> for a \<^verbatim>\<open>double x\<close>.\<close>

definition double_to_u32 :: "real \<Rightarrow> u32 option" where
  "double_to_u32 x =
     (if 0 \<le> trunc x \<and> trunc x < 4294967296 then Some (word_of_int (trunc x)) else None)"

text \<open>\<^verbatim>\<open>(int)x\<close> for a \<^verbatim>\<open>double x\<close>.\<close>

definition double_to_int :: "real \<Rightarrow> int option" where
  "double_to_int x =
     (if INT_MIN \<le> trunc x \<and> trunc x \<le> INT_MAX then Some (trunc x) else None)"

text \<open>\<^verbatim>\<open>round\<close> of \<^verbatim>\<open><cmath>\<close>: to the nearest integer, halfway cases away from zero.\<close>

definition c_round :: "real \<Rightarrow> real" where
  "c_round x = (if 0 \<le> x then of_int \<lfloor>x + 1 / 2\<rfloor> else of_int \<lceil>x - 1 / 2\<rceil>)"

text \<open>\<^verbatim>\<open>a + b\<close> and \<^verbatim>\<open>a - b\<close> on \<^verbatim>\<open>int\<close>.\<close>

definition int_add :: "int \<Rightarrow> int \<Rightarrow> int option" where
  "int_add a b = (if INT_MIN \<le> a + b \<and> a + b \<le> INT_MAX then Some (a + b) else None)"

definition int_sub :: "int \<Rightarrow> int \<Rightarrow> int option" where
  "int_sub a b = (if INT_MIN \<le> a - b \<and> a - b \<le> INT_MAX then Some (a - b) else None)"

section \<open>Class \<^verbatim>\<open>OctatrackMetadata\<close>\<close>

text \<open>\<^verbatim>\<open>struct Slice { uint32_t start; uint32_t end; }\<close>\<close>

record Slice =
  slice_start :: u32
  slice_end :: u32

record OctatrackMetadata =
  tempo_val :: u32
  trim_len :: u32
  trim_end :: u32
  slices :: "Slice list"

text \<open>
  \<^verbatim>\<open>double bars = floor(((bpm * (double)totalFrames) / ((double)sampleRate * 60.0 * 4.0)) + 0.5);\<close>
\<close>

definition bars_of :: "real \<Rightarrow> int \<Rightarrow> int \<Rightarrow> real" where
  "bars_of bpm sampleRate totalFrames =
     of_int \<lfloor>fadd (fdiv (fmul (fl bpm) (of_int totalFrames))
                          (fmul (fmul (of_int sampleRate) 60) 4))
                    (1 / 2)\<rfloor>"

text \<open>
  The constructor \<^verbatim>\<open>OctatrackMetadata(double bpm, int sampleRate, int totalFrames)\<close>.
  With \<open>sampleRate = 0\<close> the quotient is infinite or not a number, and so is the value
  converted to \<^verbatim>\<open>uint32_t\<close>: undefined. The vector \<open>slices\<close> starts empty.
\<close>

definition OctatrackMetadata_new :: "real \<Rightarrow> int \<Rightarrow> int \<Rightarrow> OctatrackMetadata option" where
  "OctatrackMetadata_new bpm sampleRate totalFrames =
     (if sampleRate = 0 then None
      else do {
        tv \<leftarrow> double_to_u32 (fmul (fl bpm) 24);
        tl \<leftarrow> double_to_u32 (fmul (bars_of bpm sampleRate totalFrames) 25);
        Some \<lparr>tempo_val = tv, trim_len = tl, trim_end = word_of_int totalFrames, slices = []\<rparr>
      })"

text \<open>
  \<^verbatim>\<open>void addSlice(uint32_t start, uint32_t end)\<close>: the object is passed in and
  returned; the method has no return value and no other effect.
\<close>

definition addSlice :: "OctatrackMetadata \<Rightarrow> u32 \<Rightarrow> u32 \<Rightarrow> OctatrackMetadata" where
  "addSlice m s e =
     (if length (slices m) < 64
      then m\<lparr>slices := slices m @ [\<lparr>slice_start = s, slice_end = e\<rparr>]\<rparr>
      else m)"

text \<open>
  \<^verbatim>\<open>write32BE\<close> and \<^verbatim>\<open>write16BE\<close> store into the vector by index. The buffer is a
  list of 832 bytes and every position written by \<open>getBuffer\<close> is below 832, so the
  list update never falls outside the list.
\<close>

definition write32BE :: "u8 list \<Rightarrow> nat \<Rightarrow> u32 \<Rightarrow> u8 list" where
  "write32BE b pos val =
     b[pos := ucast (drop_bit 24 val AND 0xFF),
       pos + 1 := ucast (drop_bit 16 val AND 0xFF),
       pos + 2 := ucast (drop_bit 8 val AND 0xFF),
       pos + 3 := ucast (val AND 0xFF)]"

definition write16BE :: "u8 list \<Rightarrow> nat \<Rightarrow> u16 \<Rightarrow> u8 list" where
  "write16BE b pos val =
     b[pos := ucast (drop_bit 8 val AND 0xFF),
       pos + 1 := ucast (val AND 0xFF)]"

definition header :: "u8 list" where
  "header = [0x46, 0x4F, 0x52, 0x4D, 0x00, 0x00, 0x00, 0x00,
             0x44, 0x50, 0x53, 0x31, 0x53, 0x4D, 0x50, 0x41]"

definition unknown :: "u8 list" where
  "unknown = [0x00, 0x00, 0x00, 0x00, 0x00, 0x02, 0x00]"

text \<open>Lines 60 to 75 of \<open>getBuffer\<close>: the zeroed vector, the two constant runs and the fields.\<close>

definition put_fields :: "OctatrackMetadata \<Rightarrow> u8 list" where
  "put_fields m =
     (let buffer = replicate 832 0;
          buffer = fold (\<lambda>i b. b[i := header ! i]) [0..<16] buffer;
          buffer = fold (\<lambda>i b. b[16 + i := unknown ! i]) [0..<7] buffer;
          buffer = write32BE buffer 23 (tempo_val m);
          buffer = write32BE buffer 27 (trim_len m);
          buffer = write32BE buffer 31 (trim_len m);
          buffer = write32BE buffer 35 0;
          buffer = write32BE buffer 39 0;
          buffer = write16BE buffer 43 48;
          buffer = buffer[45 := 0xFF];
          buffer = write32BE buffer 46 0;
          buffer = write32BE buffer 50 (trim_end m);
          buffer = write32BE buffer 54 0
      in buffer)"

text \<open>The body of the loop over the 64 slots (lines 78 to 83).\<close>

definition put_slot :: "Slice list \<Rightarrow> nat \<Rightarrow> u8 list \<Rightarrow> u8 list" where
  "put_slot sl i buffer =
     (let offset = 58 + i * 12
      in if i < length sl
         then write32BE
                (write32BE
                   (write32BE buffer offset (slice_start (sl ! i)))
                   (offset + 4) (slice_end (sl ! i)))
                (offset + 8) 0xFFFFFFFF
         else buffer)"

text \<open>\<^verbatim>\<open>for (int i = 16; i <= 829; ++i) checksum += buffer[i];\<close> on a \<^verbatim>\<open>uint16_t\<close>.\<close>

definition checksum_of :: "u8 list \<Rightarrow> u16" where
  "checksum_of buffer = fold (\<lambda>i checksum. checksum + ucast (buffer ! i)) [16..<830] 0"

text \<open>Lines 60 to 85: the fields, the loop over the slots and the slice count.\<close>

definition put_slices :: "OctatrackMetadata \<Rightarrow> u8 list" where
  "put_slices m =
     (let buffer = put_fields m;
          buffer = fold (put_slot (slices m)) [0..<64] buffer;
          buffer = write32BE buffer 826 (of_nat (length (slices m)))
      in buffer)"

definition getBuffer :: "OctatrackMetadata \<Rightarrow> u8 list" where
  "getBuffer m =
     (let buffer = put_slices m;
          checksum = checksum_of buffer;
          buffer = write16BE buffer 830 checksum
      in buffer)"

section \<open>The slice loops of \<^verbatim>\<open>main\<close>\<close>

text \<open>\<^verbatim>\<open>double bpm = (double)info.fTempo / 1000.0;\<close>\<close>

definition tempo_bpm :: "int \<Rightarrow> real" where
  "tempo_bpm fTempo = fdiv (of_int fTempo) 1000"

text \<open>
  The SDK's answers are the inputs: \<open>fPPQLength\<close> of \<^verbatim>\<open>REXInfo\<close>, the rendered length
  \<open>lengthFrames\<close>, and the list \<open>ps\<close> of the \<open>fPPQPos\<close> that \<^verbatim>\<open>REXGetSliceInfo\<close>
  reports for the indices \<open>0\<close> to \<open>fSliceCount - 1\<close>, so \<open>fSliceCount\<close> is \<open>length ps\<close>.

  \<^verbatim>\<open>(int)round(((double)s.fPPQPos / info.fPPQLength) * lengthFrames)\<close>
\<close>

definition marker_frame :: "int \<Rightarrow> int \<Rightarrow> int \<Rightarrow> int option" where
  "marker_frame fPPQPos fPPQLength lengthFrames =
     (if fPPQLength = 0 then None
      else double_to_int
             (c_round (fmul (fdiv (of_int fPPQPos) (of_int fPPQLength))
                            (of_int lengthFrames))))"

text \<open>The argument of \<^verbatim>\<open>max(0, ...)\<close> in lines 229 and 252, and in line 234.\<close>

definition raw_start :: "int \<Rightarrow> int \<Rightarrow> int \<Rightarrow> int option" where
  "raw_start fPPQPos fPPQLength lengthFrames =
     do { r \<leftarrow> marker_frame fPPQPos fPPQLength lengthFrames;
          int_add r PREVIEW_LATENCY_COMPENSATION }"

definition raw_end :: "int \<Rightarrow> int \<Rightarrow> int \<Rightarrow> int option" where
  "raw_end fPPQPos fPPQLength lengthFrames =
     do { r \<leftarrow> marker_frame fPPQPos fPPQLength lengthFrames;
          a \<leftarrow> int_add r PREVIEW_LATENCY_COMPENSATION;
          int_sub a 1 }"

text \<open>
  One iteration of the loop of lines 226 to 237, up to the call of \<open>addSlice\<close>: the
  \<^verbatim>\<open>int start\<close> and \<^verbatim>\<open>int end\<close> of slice \<open>i\<close>.
\<close>

definition slice_boundary :: "int \<Rightarrow> int \<Rightarrow> int list \<Rightarrow> nat \<Rightarrow> (int \<times> int) option" where
  "slice_boundary fPPQLength lengthFrames ps i =
     do { rs \<leftarrow> raw_start (ps ! i) fPPQLength lengthFrames;
          let start = max 0 rs;
          end0 \<leftarrow> int_sub lengthFrames 1;
          end1 \<leftarrow> (if int i < int (length ps) - 1
                   then do { re \<leftarrow> raw_end (ps ! (i + 1)) fPPQLength lengthFrames;
                             Some (max 0 re) }
                   else Some end0);
          Some (start, end1) }"

text \<open>
  The Slice Boundary Calculator of the specification: the boundaries of all markers, in
  order; defined when each of them is.
\<close>

definition slice_boundaries :: "int \<Rightarrow> int \<Rightarrow> int list \<Rightarrow> (int \<times> int) list option" where
  "slice_boundaries fPPQLength lengthFrames ps =
     those (map (slice_boundary fPPQLength lengthFrames ps) [0..<length ps])"

text \<open>The arguments \<^verbatim>\<open>(uint32_t)start, (uint32_t)end\<close> of the call in line 236.\<close>

definition cast_slice :: "int \<times> int \<Rightarrow> Slice" where
  "cast_slice b = \<lparr>slice_start = word_of_int (fst b), slice_end = word_of_int (snd b)\<rparr>"

text \<open>The loop itself, over the indices still to visit, with the object threaded through.\<close>

fun add_slices ::
  "int \<Rightarrow> int \<Rightarrow> int list \<Rightarrow> nat list \<Rightarrow> OctatrackMetadata \<Rightarrow> OctatrackMetadata option" where
  "add_slices fPPQLength lengthFrames ps [] ot = Some ot"
| "add_slices fPPQLength lengthFrames ps (i # rest) ot =
     do { (start, end1) \<leftarrow> slice_boundary fPPQLength lengthFrames ps i;
          add_slices fPPQLength lengthFrames ps rest
            (addSlice ot (word_of_int start) (word_of_int end1)) }"

text \<open>The branch \<^verbatim>\<open>if (useOcta)\<close>: the bytes handed to the output file.\<close>

definition octa_metadata :: "real \<Rightarrow> int \<Rightarrow> int \<Rightarrow> int \<Rightarrow> int list \<Rightarrow> u8 list option" where
  "octa_metadata bpm fSampleRate lengthFrames fPPQLength ps =
     do { ot \<leftarrow> OctatrackMetadata_new bpm fSampleRate lengthFrames;
          ot' \<leftarrow> add_slices fPPQLength lengthFrames ps [0..<length ps] ot;
          Some (getBuffer ot') }"

section \<open>The textual exporter of \<^verbatim>\<open>main\<close>\<close>

text \<open>
  \<^verbatim>\<open>xml << fixed << setprecision(6) << x\<close> for a \<^verbatim>\<open>double x\<close>: the decimal expansion
  of the binary64 number \<open>x\<close> rounded to six places, exact halves to the even neighbour,
  with the integer part written without leading zeros and a minus sign for a negative
  \<open>x\<close>. What is expanded is the \<^verbatim>\<open>double\<close> that the stream is handed, \<open>fl x\<close>, so a
  quotient such as \<open>3 / 48000\<close>, whose exact value \<open>0.0000625\<close> lies halfway, is printed as its
  binary64 neighbour demands.
\<close>

definition digit_char :: "nat \<Rightarrow> char" where
  "digit_char d = ''0123456789'' ! d"

fun dec_digits :: "nat \<Rightarrow> string" where
  "dec_digits n =
     (if n < 10 then [digit_char n] else dec_digits (n div 10) @ [digit_char (n mod 10)])"

definition pad6 :: "nat \<Rightarrow> string" where
  "pad6 n =
     [digit_char (n div 100000 mod 10), digit_char (n div 10000 mod 10),
      digit_char (n div 1000 mod 10), digit_char (n div 100 mod 10),
      digit_char (n div 10 mod 10), digit_char (n mod 10)]"

definition fixed6 :: "real \<Rightarrow> string" where
  "fixed6 x =
     (let n = nat (round_half_even (\<bar>fl x\<bar> * 1000000))
      in (if x < 0 then ''-'' else []) @ dec_digits (n div 1000000) @ ''.''
         @ pad6 (n mod 1000000))"

text \<open>The text that one iteration of the loop of lines 249 to 254 sends to the stream.\<close>

definition slice_element :: "int \<Rightarrow> int \<Rightarrow> string" where
  \<open>slice_element start fSampleRate =
     ''       <slice start="'' @ fixed6 (fdiv (of_int start) (of_int fSampleRate))
       @ ''" />\<newline>''\<close>

text \<open>The loop, over the markers still to visit.\<close>

fun xml_slices :: "int \<Rightarrow> int \<Rightarrow> int \<Rightarrow> int list \<Rightarrow> string option" where
  "xml_slices fSampleRate fPPQLength lengthFrames [] = Some []"
| "xml_slices fSampleRate fPPQLength lengthFrames (p # rest) =
     do { rs \<leftarrow> raw_start p fPPQLength lengthFrames;
          let start = max 0 rs;
          tail \<leftarrow> xml_slices fSampleRate fPPQLength lengthFrames rest;
          Some (slice_element start fSampleRate @ tail) }"

definition xml_prolog :: string where
  \<open>xml_prolog = ''<?xml version="1.0" encoding="UTF-8" standalone="yes"?>\<newline>''\<close>

definition audio_open :: "string \<Rightarrow> string" where
  \<open>audio_open baseName = ''<audio filename="'' @ baseName @ ''.wav">\<newline>''\<close>

definition audio_close :: string where
  \<open>audio_close = ''</audio>\<newline>''\<close>

text \<open>
  The \<^verbatim>\<open>else\<close> branch of \<^verbatim>\<open>if (useOcta)\<close>: the text sent to the output file. The
  sample rate that the SDK reports is positive. For a sample rate of zero the quotient is
  infinite or not a number, and for a negative one it can be a negative zero: their text
  is outside the model, which gives no document then.
\<close>

definition xml_document :: "string \<Rightarrow> int \<Rightarrow> int \<Rightarrow> int \<Rightarrow> int list \<Rightarrow> string option" where
  "xml_document baseName fSampleRate fPPQLength lengthFrames ps =
     (if fSampleRate \<le> 0 then None
      else do { body \<leftarrow> xml_slices fSampleRate fPPQLength lengthFrames ps;
                Some (xml_prolog @ audio_open baseName @ body @ audio_close) })"

section \<open>Reading the buffer back\<close>

text \<open>
  The big-endian value held at a position of the buffer. The source only writes; these two
  readers are the inverse that the byte layout of the format prescribes, used to state
  what a field of the produced buffer holds.
\<close>

definition read32BE :: "u8 list \<Rightarrow> nat \<Rightarrow> u32" where
  "read32BE b pos =
     push_bit 24 (ucast (b ! pos)) OR push_bit 16 (ucast (b ! (pos + 1)))
       OR push_bit 8 (ucast (b ! (pos + 2))) OR ucast (b ! (pos + 3))"

definition read16BE :: "u8 list \<Rightarrow> nat \<Rightarrow> u16" where
  "read16BE b pos = push_bit 8 (ucast (b ! pos)) OR ucast (b ! (pos + 1))"

text \<open>
  The number that a string of decimal digits denotes, read independently of the functions
  that write the digits.
\<close>

definition digit_value :: "char \<Rightarrow> nat" where
  "digit_value c = of_char c - 48"

definition digits_value :: "string \<Rightarrow> nat" where
  "digits_value s = foldl (\<lambda>a c. 10 * a + digit_value c) 0 s"

section \<open>Rounding to binary64: bounds\<close>

lemma pow2_powr: "pow2 e = 2 powr of_int e"
proof (cases "0 \<le> e")
  case True
  then have "2 powr of_int e = (2 :: real) powr real (nat e)"
    by simp
  also have "\<dots> = 2 ^ nat e"
    by (rule powr_realpow) simp
  finally show ?thesis
    using True by (simp add: pow2_def)
next
  case False
  then have "2 powr of_int e = (2 :: real) powr - real (nat (- e))"
    by simp
  also have "\<dots> = 1 / 2 powr real (nat (- e))"
    by (rule powr_minus_divide)
  also have "2 powr real (nat (- e)) = (2 :: real) ^ nat (- e)"
    by (rule powr_realpow) simp
  finally show ?thesis
    using False by (simp add: pow2_def)
qed

lemma pow2_pos [simp]: "0 < pow2 e"
  by (simp add: pow2_powr)

lemma pow2_nonneg [simp]: "0 \<le> pow2 e"
  by (rule less_imp_le [OF pow2_pos])

lemma pow2_neq0 [simp]: "pow2 e \<noteq> 0"
  by (metis pow2_pos less_irrefl)

lemma pow2_add: "pow2 (a + b) = pow2 a * pow2 b"
  by (simp add: pow2_powr powr_add)

lemma pow2_le_iff [simp]: "pow2 a \<le> pow2 b \<longleftrightarrow> a \<le> b"
  by (simp add: pow2_powr)

lemma pow2_less_iff [simp]: "pow2 a < pow2 b \<longleftrightarrow> a < b"
  by (simp add: pow2_powr)

lemma pow2_0 [simp]: "pow2 0 = 1"
  by (simp add: pow2_def)

lemma pow2_1 [simp]: "pow2 1 = 2"
  by (simp add: pow2_def)

lemma pow2_plus1: "pow2 (e + 1) = 2 * pow2 e"
  by (simp add: pow2_add)

lemma pow2_minus1: "pow2 (e - 1) = pow2 e / 2"
  using pow2_plus1 [of "e - 1"] by simp

lemma pow2_nat: "pow2 (int n) = 2 ^ n"
  by (simp add: pow2_def)

lemma pow2_neg_mult: "e \<le> 0 \<Longrightarrow> x / pow2 e = x * of_int (2 ^ nat (- e))"
proof -
  assume "e \<le> 0"
  then have n: "of_int (2 ^ nat (- e)) = pow2 (- e)"
    by (simp add: pow2_def)
  have nz: "pow2 e \<noteq> 0"
    by (metis pow2_pos less_irrefl)
  have "pow2 e * pow2 (- e) = 1"
    using pow2_add [of e "- e"] by simp
  with nz have "pow2 (- e) = 1 / pow2 e"
    by (simp add: field_simps)
  then show ?thesis
    unfolding n by simp
qed

lemma norm_exp_bounds:
  "0 < x \<Longrightarrow> pow2 (norm_exp x) \<le> x \<and> x < pow2 (norm_exp x + 1)"
proof (induction x rule: norm_exp.induct)
  case (1 x)
  show ?case
  proof (cases "2 \<le> x")
    case True
    with "1.prems" have n: "norm_exp x = norm_exp (x / 2) + 1"
      by (simp add: norm_exp.simps [of x])
    from "1.IH"(1) True "1.prems"
    have "pow2 (norm_exp (x / 2)) \<le> x / 2 \<and> x / 2 < pow2 (norm_exp (x / 2) + 1)"
      by simp
    then show ?thesis
      unfolding n pow2_plus1 by simp
  next
    case False
    show ?thesis
    proof (cases "x < 1")
      case True
      with False "1.prems" have n: "norm_exp x = norm_exp (x * 2) - 1"
        by (simp add: norm_exp.simps [of x])
      from "1.IH"(2) True False "1.prems"
      have "pow2 (norm_exp (x * 2)) \<le> x * 2 \<and> x * 2 < pow2 (norm_exp (x * 2) + 1)"
        by simp
      then show ?thesis
        unfolding n by (simp add: pow2_minus1 pow2_plus1)
    next
      case x: False
      with False "1.prems" have "norm_exp x = 0"
        by (simp add: norm_exp.simps [of x])
      with x False show ?thesis
        by simp
    qed
  qed
qed

lemma norm_exp_less: "0 < x \<Longrightarrow> x < pow2 e \<Longrightarrow> norm_exp x < e"
proof -
  assume "0 < x" "x < pow2 e"
  with norm_exp_bounds [of x] have "pow2 (norm_exp x) < pow2 e"
    by linarith
  then show ?thesis
    by simp
qed

lemma norm_exp_ge: "pow2 e \<le> x \<Longrightarrow> e \<le> norm_exp x"
proof -
  assume a: "pow2 e \<le> x"
  have "0 < pow2 e"
    by simp
  with a have "0 < x"
    by linarith
  with norm_exp_bounds [of x] a have "pow2 e < pow2 (norm_exp x + 1)"
    by linarith
  then show ?thesis
    by simp
qed

lemma floor_le_round_half_even: "\<lfloor>y\<rfloor> \<le> round_half_even y"
  by (simp add: round_half_even_def)

lemma round_half_even_le_ceiling: "round_half_even y \<le> \<lceil>y\<rceil>"
proof (cases "frac y = 0")
  case True
  then have "frac y < 1 / 2"
    by linarith
  then have "round_half_even y = \<lfloor>y\<rfloor>"
    by (simp add: round_half_even_def)
  then show ?thesis
    by (simp add: floor_le_ceiling)
next
  case False
  have y: "y = of_int \<lfloor>y\<rfloor> + frac y"
    by (simp add: frac_def)
  from False frac_ge_0 [of y] have "0 < frac y"
    by linarith
  with y le_of_int_ceiling [of y] have "(of_int \<lfloor>y\<rfloor> :: real) < of_int \<lceil>y\<rceil>"
    by linarith
  then have "\<lfloor>y\<rfloor> + 1 \<le> \<lceil>y\<rceil>"
    by simp
  moreover have "round_half_even y \<le> \<lfloor>y\<rfloor> + 1"
    by (simp add: round_half_even_def)
  ultimately show ?thesis
    by linarith
qed

lemma round_half_even_near: "\<bar>of_int (round_half_even y) - y\<bar> \<le> 1 / 2"
proof -
  have y: "y = of_int \<lfloor>y\<rfloor> + frac y"
    by (simp add: frac_def)
  have f: "0 \<le> frac y" "frac y < 1"
    by (simp_all add: frac_lt_1)
  consider "frac y < 1 / 2" | "1 / 2 < frac y" | "frac y = 1 / 2"
    by linarith
  then show ?thesis
  proof cases
    case 1
    then have "round_half_even y = \<lfloor>y\<rfloor>"
      by (simp add: round_half_even_def)
    with y f 1 show ?thesis by linarith
  next
    case 2
    then have "round_half_even y = \<lfloor>y\<rfloor> + 1"
      by (simp add: round_half_even_def)
    with y f 2 show ?thesis by simp
  next
    case 3
    then have "round_half_even y = \<lfloor>y\<rfloor> \<or> round_half_even y = \<lfloor>y\<rfloor> + 1"
      by (simp add: round_half_even_def)
    then show ?thesis
    proof
      assume "round_half_even y = \<lfloor>y\<rfloor>"
      with y 3 show ?thesis by linarith
    next
      assume "round_half_even y = \<lfloor>y\<rfloor> + 1"
      with y 3 show ?thesis by simp
    qed
  qed
qed


lemma fl_nonneg: "0 \<le> x \<Longrightarrow> 0 \<le> fl x"
proof -
  assume "0 \<le> x"
  let ?q = "pow2 (max (norm_exp \<bar>x\<bar>) (- 1022) - 52)"
  from \<open>0 \<le> x\<close> have "0 \<le> x / ?q"
    by simp
  then have "0 \<le> \<lfloor>x / ?q\<rfloor>"
    by simp
  with floor_le_round_half_even [of "x / ?q"] have "0 \<le> round_half_even (x / ?q)"
    by linarith
  then show ?thesis
    by (simp add: fl_def Let_def)
qed

lemma fl_grid_exp:
  assumes "\<bar>x\<bar> < 2 ^ 53"
  shows "max (norm_exp \<bar>x\<bar>) (- 1022) - 52 \<le> 0"
proof (cases "x = 0")
  case True
  then show ?thesis
    by (simp add: norm_exp.simps)
next
  case False
  then have "0 < \<bar>x\<bar>"
    by simp
  moreover from assms have "\<bar>x\<bar> < pow2 53"
    by (simp add: pow2_def)
  ultimately have "norm_exp \<bar>x\<bar> < 53"
    by (rule norm_exp_less)
  then show ?thesis
    by simp
qed

lemma fl_int_lower:
  assumes "\<bar>x\<bar> < 2 ^ 53" and "of_int i \<le> x"
  shows "of_int i \<le> fl x"
proof -
  define k where "k = max (norm_exp \<bar>x\<bar>) (- 1022) - 52"
  define N :: int where "N = 2 ^ nat (- k)"
  from fl_grid_exp [OF assms(1)] have k: "k \<le> 0"
    by (simp add: k_def)
  have N: "0 < N"
    by (simp add: N_def)
  have d: "y / pow2 k = y * of_int N" for y
    unfolding N_def by (rule pow2_neg_mult [OF k])
  from assms(2) N have "of_int i * of_int N \<le> x * (of_int N :: real)"
    by (intro mult_right_mono) simp_all
  then have "of_int (i * N) \<le> x / pow2 k"
    by (simp add: d)
  then have "i * N \<le> \<lfloor>x / pow2 k\<rfloor>"
    by (simp only: le_floor_iff)
  with floor_le_round_half_even [of "x / pow2 k"] have "i * N \<le> round_half_even (x / pow2 k)"
    by linarith
  then have "(of_int (i * N) :: real) \<le> of_int (round_half_even (x / pow2 k))"
    by (simp only: of_int_le_iff)
  then have A: "of_int (i * N) * pow2 k \<le> of_int (round_half_even (x / pow2 k)) * pow2 k"
    by (intro mult_right_mono) simp_all
  have B: "of_int (i * N) * pow2 k = of_int i"
  proof -
    have "of_int N * pow2 k = (1 :: real)"
      using d [of "pow2 k"] by (simp add: mult.commute)
    then have "of_int i * (of_int N * pow2 k) = (of_int i :: real)"
      by simp
    then show ?thesis
      by (simp only: of_int_mult mult.assoc)
  qed
  have f: "fl x = of_int (round_half_even (x / pow2 k)) * pow2 k"
    by (simp add: fl_def Let_def k_def)
  from A show ?thesis
    unfolding B f .
qed

lemma fl_int_upper:
  assumes "\<bar>x\<bar> < 2 ^ 53" and "x \<le> of_int i"
  shows "fl x \<le> of_int i"
proof -
  define k where "k = max (norm_exp \<bar>x\<bar>) (- 1022) - 52"
  define N :: int where "N = 2 ^ nat (- k)"
  from fl_grid_exp [OF assms(1)] have k: "k \<le> 0"
    by (simp add: k_def)
  have N: "0 < N"
    by (simp add: N_def)
  have d: "y / pow2 k = y * of_int N" for y
    unfolding N_def by (rule pow2_neg_mult [OF k])
  from assms(2) N have "x * (of_int N :: real) \<le> of_int i * of_int N"
    by (intro mult_right_mono) simp_all
  then have "x / pow2 k \<le> of_int (i * N)"
    by (simp add: d)
  then have "\<lceil>x / pow2 k\<rceil> \<le> i * N"
    by (simp only: ceiling_le_iff)
  with round_half_even_le_ceiling [of "x / pow2 k"] have "round_half_even (x / pow2 k) \<le> i * N"
    by linarith
  then have "(of_int (round_half_even (x / pow2 k)) :: real) \<le> of_int (i * N)"
    by (simp only: of_int_le_iff)
  then have A: "of_int (round_half_even (x / pow2 k)) * pow2 k \<le> of_int (i * N) * pow2 k"
    by (intro mult_right_mono) simp_all
  have B: "of_int (i * N) * pow2 k = of_int i"
  proof -
    have "of_int N * pow2 k = (1 :: real)"
      using d [of "pow2 k"] by (simp add: mult.commute)
    then have "of_int i * (of_int N * pow2 k) = (of_int i :: real)"
      by simp
    then show ?thesis
      by (simp only: of_int_mult mult.assoc)
  qed
  have f: "fl x = of_int (round_half_even (x / pow2 k)) * pow2 k"
    by (simp add: fl_def Let_def k_def)
  from A show ?thesis
    unfolding B f .
qed

lemma norm_exp_0 [simp]: "norm_exp 0 = 0"
  by (simp add: norm_exp.simps)

lemma fl_0 [simp]: "fl 0 = 0"
  by (simp add: fl_def round_half_even_def)

lemma fl_of_int: "\<bar>i\<bar> < 2 ^ 53 \<Longrightarrow> fl (of_int i) = of_int i"
proof -
  assume "\<bar>i\<bar> < 2 ^ 53"
  then have "(of_int \<bar>i\<bar> :: real) < of_int (2 ^ 53)"
    by (simp only: of_int_less_iff)
  then have "\<bar>of_int i :: real\<bar> < 2 ^ 53"
    by simp
  from fl_int_lower [OF this, of i] fl_int_upper [OF this, of i] show ?thesis
    by simp
qed

lemma fl_error:
  "\<bar>fl x - x\<bar> \<le> \<bar>x\<bar> / 2 ^ 53 + pow2 (- 1075)"
proof -
  define k where "k = max (norm_exp \<bar>x\<bar>) (- 1022) - 52"
  have "\<bar>of_int (round_half_even (x / pow2 k)) - x / pow2 k\<bar> \<le> 1 / 2"
    by (rule round_half_even_near)
  then have "\<bar>of_int (round_half_even (x / pow2 k)) - x / pow2 k\<bar> * pow2 k \<le> 1 / 2 * pow2 k"
    by (intro mult_right_mono) simp_all
  moreover have "\<bar>of_int (round_half_even (x / pow2 k)) - x / pow2 k\<bar> * pow2 k
    = \<bar>fl x - x\<bar>"
  proof -
    have "\<bar>of_int (round_half_even (x / pow2 k)) - x / pow2 k\<bar> * \<bar>pow2 k\<bar>
      = \<bar>(of_int (round_half_even (x / pow2 k)) - x / pow2 k) * pow2 k\<bar>"
      by (simp only: abs_mult)
    also have "(of_int (round_half_even (x / pow2 k)) - x / pow2 k) * pow2 k = fl x - x"
      using pow2_pos [of k] by (simp add: fl_def Let_def k_def algebra_simps)
    finally show ?thesis
      by simp
  qed
  moreover have "1 / 2 * pow2 k = pow2 (k - 1)"
    by (simp add: pow2_minus1)
  ultimately have e: "\<bar>fl x - x\<bar> \<le> pow2 (k - 1)"
    by simp
  consider "x = 0" | "x \<noteq> 0" "- 1022 \<le> norm_exp \<bar>x\<bar>"
    | "x \<noteq> 0" "norm_exp \<bar>x\<bar> < - 1022"
    by linarith
  then show ?thesis
  proof cases
    case 1
    then show ?thesis
      by simp
  next
    case 2
    then have "k - 1 = norm_exp \<bar>x\<bar> + (- 53)"
      by (simp add: k_def)
    then have "pow2 (k - 1) = pow2 (norm_exp \<bar>x\<bar>) * pow2 (- 53)"
      by (simp only: pow2_add)
    also have "pow2 (- 53) = 1 / 2 ^ 53"
      by (simp add: pow2_def)
    finally have "pow2 (k - 1) = pow2 (norm_exp \<bar>x\<bar>) / 2 ^ 53"
      by simp
    moreover from 2 norm_exp_bounds [of "\<bar>x\<bar>"] have "pow2 (norm_exp \<bar>x\<bar>) \<le> \<bar>x\<bar>"
      by simp
    then have "pow2 (norm_exp \<bar>x\<bar>) / 2 ^ 53 \<le> \<bar>x\<bar> / 2 ^ 53"
      by (simp add: divide_right_mono)
    ultimately have "pow2 (k - 1) \<le> \<bar>x\<bar> / 2 ^ 53"
      by simp
    with e pow2_pos [of "- 1075"] show ?thesis
      by linarith
  next
    case 3
    then have "k - 1 = - 1075"
      by (simp add: k_def)
    with e have "\<bar>fl x - x\<bar> \<le> pow2 (- 1075)"
      by simp
    moreover have "0 \<le> \<bar>x\<bar> / 2 ^ 53"
      by simp
    ultimately show ?thesis
      by linarith
  qed
qed

lemma fl_ge_2_53:
  assumes "2 ^ 53 \<le> x"
  shows "2 ^ 53 \<le> fl x"
proof -
  define k where "k = max (norm_exp \<bar>x\<bar>) (- 1022) - 52"
  from assms have x: "pow2 53 \<le> \<bar>x\<bar>"
    by (simp add: pow2_def)
  then have n: "53 \<le> norm_exp \<bar>x\<bar>"
    by (rule norm_exp_ge)
  then have k: "k = norm_exp \<bar>x\<bar> + (- 52)" and k1: "1 \<le> k"
    by (simp_all add: k_def)
  from x have "0 < \<bar>x\<bar>"
    using pow2_pos [of 53] by linarith
  with norm_exp_bounds [of "\<bar>x\<bar>"] assms have "pow2 (norm_exp \<bar>x\<bar>) \<le> x"
    by simp
  then have "pow2 (norm_exp \<bar>x\<bar>) / pow2 k \<le> x / pow2 k"
    by (simp add: divide_right_mono)
  moreover have "pow2 (norm_exp \<bar>x\<bar>) = pow2 52 * pow2 k"
    unfolding k pow2_add [symmetric] by simp
  ultimately have "pow2 52 \<le> x / pow2 k"
    by simp
  then have "of_int (2 ^ 52) \<le> x / pow2 k"
    by (simp add: pow2_def)
  then have "2 ^ 52 \<le> \<lfloor>x / pow2 k\<rfloor>"
    by (simp only: le_floor_iff)
  with floor_le_round_half_even [of "x / pow2 k"] have "2 ^ 52 \<le> round_half_even (x / pow2 k)"
    by linarith
  then have "(of_int (2 ^ 52) :: real) \<le> of_int (round_half_even (x / pow2 k))"
    by (simp only: of_int_le_iff)
  moreover from k1 have "pow2 1 \<le> pow2 k"
    by (simp only: pow2_le_iff)
  ultimately have "of_int (2 ^ 52) * pow2 1 \<le> of_int (round_half_even (x / pow2 k)) * pow2 k"
    by (intro mult_mono) simp_all
  moreover have "fl x = of_int (round_half_even (x / pow2 k)) * pow2 k"
    by (simp add: fl_def Let_def k_def)
  ultimately show ?thesis
    by simp
qed

lemma round_half_even_of_int [simp]: "round_half_even (of_int m) = m"
  by (simp add: round_half_even_def)

lemma fl_representable:
  assumes "\<bar>n\<bar> \<le> 2 ^ 53" and "- 1074 \<le> k"
  shows "fl (of_int n * pow2 k) = of_int n * pow2 k"
proof (cases "n = 0")
  case True
  then show ?thesis
    by simp
next
  case False
  define y where "y = of_int n * pow2 k"
  define k' where "k' = max (norm_exp \<bar>y\<bar>) (- 1022) - 52"
  have ay: "\<bar>y\<bar> = of_int \<bar>n\<bar> * pow2 k"
    by (simp add: y_def abs_mult)
  from False have ypos: "0 < \<bar>y\<bar>"
    by (simp add: y_def)
  from assms(1) have "(of_int \<bar>n\<bar> :: real) \<le> of_int (2 ^ 53)"
    by (simp only: of_int_le_iff)
  then have n53: "(of_int \<bar>n\<bar> :: real) \<le> 2 ^ 53"
    by simp
  have p53: "pow2 (k + 53) = 2 ^ 53 * pow2 k"
    using pow2_add [of 53 k] by (simp add: pow2_def add.commute)
  have "\<exists>m. y / pow2 k' = of_int m"
  proof (cases "k' \<le> k")
    case True
    have "pow2 k = pow2 k' * pow2 (k - k')"
      using pow2_add [of k' "k - k'"] by simp
    moreover from True have "pow2 (k - k') = of_int (2 ^ nat (k - k'))"
      by (simp add: pow2_def)
    ultimately have "y / pow2 k' = of_int (n * 2 ^ nat (k - k'))"
      by (simp add: y_def)
    then show ?thesis
      by blast
  next
    case False
    with assms(2) have e: "k + 53 \<le> norm_exp \<bar>y\<bar>"
      by (simp add: k'_def)
    from norm_exp_bounds [OF ypos] have "pow2 (norm_exp \<bar>y\<bar>) \<le> \<bar>y\<bar>"
      by simp
    moreover from e have "pow2 (k + 53) \<le> pow2 (norm_exp \<bar>y\<bar>)"
      by simp
    ultimately have "2 ^ 53 * pow2 k \<le> of_int \<bar>n\<bar> * pow2 k"
      unfolding p53 ay by linarith
    then have "(2 ^ 53 :: real) \<le> of_int \<bar>n\<bar>"
      by simp
    with n53 have "(of_int \<bar>n\<bar> :: real) = of_int (2 ^ 53)"
      by simp
    then have n: "\<bar>n\<bar> = 2 ^ 53"
      by (simp only: of_int_eq_iff)
    then have ay': "\<bar>y\<bar> = pow2 (k + 53)"
      unfolding ay p53 by simp
    have "pow2 (k + 53) < pow2 (k + 54)"
      by simp
    with ay' have "norm_exp \<bar>y\<bar> < k + 54"
      by (intro norm_exp_less ypos) simp
    with e assms(2) have k': "k' = k + 1"
      by (simp add: k'_def)
    have "pow2 (k + 1) = 2 * pow2 k"
      by (rule pow2_plus1)
    then have "y / pow2 k' = of_int n / 2"
      unfolding k' by (simp add: y_def)
    moreover from n have "even \<bar>n\<bar>"
      by simp
    then have "even n"
      by simp
    then have "n = 2 * (n div 2)"
      by simp
    then have "(of_int n :: real) = 2 * of_int (n div 2)"
      by (metis of_int_mult of_int_numeral)
    ultimately have "y / pow2 k' = of_int (n div 2)"
      by simp
    then show ?thesis
      by blast
  qed
  then obtain m where m: "y / pow2 k' = of_int m"
    by blast
  then have "of_int m * pow2 k' = y"
    by (simp add: field_simps)
  moreover have "fl y = of_int (round_half_even (y / pow2 k')) * pow2 k'"
    by (simp add: fl_def k'_def Let_def)
  then have "fl y = of_int m * pow2 k'"
    unfolding m by simp
  ultimately have "fl y = y"
    by simp
  then show ?thesis
    unfolding y_def .
qed

text \<open>Rounding yields a binary64 number, and leaves a binary64 number as it is.\<close>

lemma fl_idem: "fl (fl x) = fl x"
proof -
  define k where "k = max (norm_exp \<bar>x\<bar>) (- 1022) - 52"
  define n where "n = round_half_even (x / pow2 k)"
  have f: "fl x = of_int n * pow2 k"
    by (simp add: fl_def k_def n_def Let_def)
  have k: "- 1074 \<le> k"
    by (simp add: k_def)
  have "\<bar>x\<bar> < pow2 (k + 53)"
  proof (cases "x = 0")
    case True
    then show ?thesis
      by simp
  next
    case False
    then have "0 < \<bar>x\<bar>"
      by simp
    from norm_exp_bounds [OF this] have "\<bar>x\<bar> < pow2 (norm_exp \<bar>x\<bar> + 1)"
      by simp
    moreover have "pow2 (norm_exp \<bar>x\<bar> + 1) \<le> pow2 (k + 53)"
      by (simp add: k_def)
    ultimately show ?thesis
      by linarith
  qed
  moreover have "pow2 (k + 53) = 2 ^ 53 * pow2 k"
    using pow2_add [of 53 k] by (simp add: pow2_def add.commute)
  ultimately have "\<bar>x\<bar> / pow2 k < 2 ^ 53"
    by (simp add: field_simps)
  then have a: "\<bar>x / pow2 k\<bar> < 2 ^ 53"
    by simp
  then have "x / pow2 k \<le> 2 ^ 53" and "- (2 ^ 53) \<le> x / pow2 k"
    by linarith+
  then have "x / pow2 k \<le> of_int (2 ^ 53)" and "of_int (- (2 ^ 53)) \<le> x / pow2 k"
    by simp_all
  then have "\<lceil>x / pow2 k\<rceil> \<le> 2 ^ 53" and "- (2 ^ 53) \<le> \<lfloor>x / pow2 k\<rfloor>"
    by (simp_all only: ceiling_le_iff le_floor_iff)
  with floor_le_round_half_even [of "x / pow2 k"] round_half_even_le_ceiling [of "x / pow2 k"]
  have "\<bar>n\<bar> \<le> 2 ^ 53"
    unfolding n_def by linarith
  from fl_representable [OF this k] show ?thesis
    unfolding f .
qed

section \<open>Bytes written and read\<close>

lemma ff32: "(0xFF :: u32) = mask 8"
  by (simp add: mask_eq_exp_minus_1)

lemma ff16: "(0xFF :: u16) = mask 8"
  by (simp add: mask_eq_exp_minus_1)

lemma be16_join:
  "push_bit 8 (ucast (ucast (drop_bit 8 v AND 0xFF :: u16) :: u8))
   OR ucast (ucast (v AND 0xFF :: u16) :: u8) = (v :: u16)"
  unfolding ff16 by (rule bit_word_eqI) (auto simp add: bit_simps)

lemma be32_join:
  "push_bit 24 (ucast (ucast (drop_bit 24 v AND 0xFF :: u32) :: u8)) 
   OR push_bit 16 (ucast (ucast (drop_bit 16 v AND 0xFF :: u32) :: u8))
   OR push_bit 8 (ucast (ucast (drop_bit 8 v AND 0xFF :: u32) :: u8))
   OR ucast (ucast (v AND 0xFF :: u32) :: u8) = (v :: u32)"
  unfolding ff32
proof (rule bit_word_eqI)
  fix n
  assume n: "n < LENGTH(32)"
  consider "n < 8" | "8 \<le> n" "n < 16" | "16 \<le> n" "n < 24" | "24 \<le> n"
    by linarith
  then show "bit (push_bit 24 (ucast (ucast (drop_bit 24 v AND mask 8 :: u32) :: u8)) 
   OR push_bit 16 (ucast (ucast (drop_bit 16 v AND mask 8 :: u32) :: u8))
   OR push_bit 8 (ucast (ucast (drop_bit 8 v AND mask 8 :: u32) :: u8))
   OR ucast (ucast (v AND mask 8 :: u32) :: u8) :: u32) n = bit v n"
    using n by cases (auto simp add: bit_simps)
qed

lemma length_write32BE [simp]: "length (write32BE b pos v) = length b"
  by (simp add: write32BE_def)

lemma length_write16BE [simp]: "length (write16BE b pos v) = length b"
  by (simp add: write16BE_def)

lemma nth_write32BE_other:
  "j < pos \<or> pos + 3 < j \<Longrightarrow> write32BE b pos v ! j = b ! j"
  by (auto simp add: write32BE_def)

lemma nth_write16BE_other:
  "j < pos \<or> pos + 1 < j \<Longrightarrow> write16BE b pos v ! j = b ! j"
  by (auto simp add: write16BE_def)

lemma read32BE_write32BE:
  "pos + 3 < length b \<Longrightarrow> read32BE (write32BE b pos v) pos = v"
  by (simp add: read32BE_def write32BE_def be32_join)

lemma read16BE_write16BE:
  "pos + 1 < length b \<Longrightarrow> read16BE (write16BE b pos v) pos = v"
  by (simp add: read16BE_def write16BE_def be16_join)

lemma read32BE_cong:
  "(\<And>k. k < 4 \<Longrightarrow> b ! (pos + k) = b' ! (pos + k)) \<Longrightarrow> read32BE b pos = read32BE b' pos"
proof -
  assume h: "\<And>k. k < 4 \<Longrightarrow> b ! (pos + k) = b' ! (pos + k)"
  from h [of 0] h [of 1] h [of 2] h [of 3] show ?thesis
    by (simp add: read32BE_def)
qed

lemma read32BE_write32BE_other:
  "p + 3 < pos \<or> pos + 3 < p \<Longrightarrow> read32BE (write32BE b pos v) p = read32BE b p"
  by (rule read32BE_cong) (auto simp add: nth_write32BE_other)

lemma read32BE_write16BE_other:
  "p + 3 < pos \<or> pos + 1 < p \<Longrightarrow> read32BE (write16BE b pos v) p = read32BE b p"
  by (rule read32BE_cong) (auto simp add: nth_write16BE_other)

lemma read32BE_update_other:
  "p + 3 < pos \<or> pos < p \<Longrightarrow> read32BE (b[pos := x]) p = read32BE b p"
  by (rule read32BE_cong) auto

subsection \<open>The slot loop\<close>

lemma length_put_slot [simp]: "length (put_slot sl i b) = length b"
  by (simp add: put_slot_def Let_def)

lemma length_fold_put_slot [simp]: "length (fold (put_slot sl) is b) = length b"
  by (induction "is" arbitrary: b) simp_all

lemma nth_put_slot_other:
  "j < 58 + i * 12 \<or> 58 + i * 12 + 12 \<le> j \<Longrightarrow> put_slot sl i b ! j = b ! j"
  by (auto simp add: put_slot_def Let_def nth_write32BE_other)

lemma read32BE_put_slot_other:
  "p + 3 < 58 + i * 12 \<or> 58 + i * 12 + 12 \<le> p \<Longrightarrow>
   read32BE (put_slot sl i b) p = read32BE b p"
  by (rule read32BE_cong) (auto simp add: nth_put_slot_other)

lemma read32BE_put_slot:
  assumes "i < length sl" and "58 + i * 12 + 11 < length b"
  shows "read32BE (put_slot sl i b) (58 + i * 12) = slice_start (sl ! i)"
    and "read32BE (put_slot sl i b) (58 + i * 12 + 4) = slice_end (sl ! i)"
    and "read32BE (put_slot sl i b) (58 + i * 12 + 8) = 0xFFFFFFFF"
  using assms
  by (simp_all add: put_slot_def Let_def read32BE_write32BE read32BE_write32BE_other)

lemma fold_put_slot_Suc:
  "fold (put_slot sl) [0..<Suc n] b = put_slot sl n (fold (put_slot sl) [0..<n] b)"
  by simp

lemma nth_slots_other:
  "j < 58 \<or> 58 + min n (length sl) * 12 \<le> j \<Longrightarrow>
   fold (put_slot sl) [0..<n] b ! j = b ! j"
proof (induction n)
  case 0
  then show ?case by simp
next
  case (Suc n)
  show ?case
  proof (cases "n < length sl")
    case True
    with Suc.prems have "j < 58 + n * 12 \<or> 58 + n * 12 + 12 \<le> j"
      and "j < 58 \<or> 58 + min n (length sl) * 12 \<le> j"
      by auto
    then show ?thesis
      using Suc.IH by (simp only: fold_put_slot_Suc nth_put_slot_other)
  next
    case False
    then have "put_slot sl n = (\<lambda>b. b)"
      by (simp add: put_slot_def fun_eq_iff)
    moreover from False Suc.prems have "j < 58 \<or> 58 + min n (length sl) * 12 \<le> j"
      by auto
    ultimately show ?thesis
      using Suc.IH by (simp only: fold_put_slot_Suc)
  qed
qed

lemma read32BE_slots:
  assumes "i < n" and "i < length sl" and "58 + n * 12 \<le> length b"
  shows "read32BE (fold (put_slot sl) [0..<n] b) (58 + i * 12) = slice_start (sl ! i)
       \<and> read32BE (fold (put_slot sl) [0..<n] b) (58 + i * 12 + 4) = slice_end (sl ! i)
       \<and> read32BE (fold (put_slot sl) [0..<n] b) (58 + i * 12 + 8) = 0xFFFFFFFF"
  using assms
proof (induction n)
  case 0
  then show ?case by simp
next
  case (Suc n)
  let ?B = "fold (put_slot sl) [0..<n] b"
  show ?case
  proof (cases "i = n")
    case True
    from Suc.prems True have a: "n < length sl" and b: "58 + n * 12 + 11 < length ?B"
      by simp_all
    show ?thesis
      unfolding True fold_put_slot_Suc using read32BE_put_slot [OF a b] by simp
  next
    case False
    with Suc.prems have "i < n" and "58 + n * 12 \<le> length b"
      by auto
    with Suc.IH Suc.prems(2) have ih:
      "read32BE ?B (58 + i * 12) = slice_start (sl ! i)
       \<and> read32BE ?B (58 + i * 12 + 4) = slice_end (sl ! i)
       \<and> read32BE ?B (58 + i * 12 + 8) = 0xFFFFFFFF"
      by simp
    have o: "read32BE (put_slot sl n ?B) (58 + i * 12 + k) = read32BE ?B (58 + i * 12 + k)"
      if "k \<le> 8" for k
      by (rule read32BE_put_slot_other) (use \<open>i < n\<close> that in auto)
    show ?thesis
      unfolding fold_put_slot_Suc using ih o [of 0] o [of 4] o [of 8] by simp
  qed
qed

subsection \<open>The buffer of \<open>getBuffer\<close>\<close>

lemma length_fold_update [simp]:
  "length (fold (\<lambda>i b. b[f i := g i]) is b) = length b"
  by (induction "is" arbitrary: b) simp_all

lemma nth_fold_update_other:
  "(\<And>i. i \<in> set is \<Longrightarrow> f i \<noteq> j) \<Longrightarrow> fold (\<lambda>i b. b[f i := g i]) is b ! j = b ! j"
  by (induction "is" arbitrary: b) simp_all

lemma read32BE_fold_update_other:
  "(\<And>i. i \<in> set is \<Longrightarrow> f i < p) \<Longrightarrow>
   read32BE (fold (\<lambda>i b. b[f i := g i]) is b) p = read32BE b p"
  by (rule read32BE_cong) (rule nth_fold_update_other, fastforce)

lemma length_put_fields [simp]: "length (put_fields m) = 832"
  by (simp add: put_fields_def)

lemma length_put_slices [simp]: "length (put_slices m) = 832"
  by (simp add: put_slices_def)

lemma length_getBuffer: "length (getBuffer m) = 832"
  by (simp add: getBuffer_def Let_def)

lemma put_fields_zero:
  assumes "58 \<le> j" and "j < 832"
  shows "put_fields m ! j = 0"
proof -
  let ?h = "fold (\<lambda>i b. b[i := header ! i]) [0..<16] (replicate 832 0)"
  let ?u = "fold (\<lambda>i b. b[16 + i := unknown ! i]) [0..<7] ?h"
  have "?h ! j = replicate 832 0 ! j"
    by (rule nth_fold_update_other) (use assms in auto)
  moreover have "?u ! j = ?h ! j"
    by (rule nth_fold_update_other) (use assms in auto)
  ultimately have "?u ! j = 0"
    using assms by simp
  with assms show ?thesis
    by (simp add: put_fields_def nth_write32BE_other nth_write16BE_other)
qed

lemma read32BE_constant_runs:
  "23 \<le> p \<Longrightarrow>
   read32BE (fold (\<lambda>i b. b[16 + i := unknown ! i]) [0..<7]
              (fold (\<lambda>i b. b[i := header ! i]) [0..<16] b)) p = read32BE b p"
proof -
  assume p: "23 \<le> p"
  let ?h = "fold (\<lambda>i b. b[i := header ! i]) [0..<16] b"
  have "read32BE (fold (\<lambda>i b. b[16 + i := unknown ! i]) [0..<7] ?h) p = read32BE ?h p"
    by (rule read32BE_fold_update_other) (use p in auto)
  also have "\<dots> = read32BE b p"
    by (rule read32BE_fold_update_other) (use p in auto)
  finally show ?thesis .
qed


lemma read32BE_put_fields:
  "read32BE (put_fields m) 23 = tempo_val m"
  "read32BE (put_fields m) 27 = trim_len m"
  "read32BE (put_fields m) 31 = trim_len m"
  "read32BE (put_fields m) 50 = trim_end m"
  by (simp_all add: put_fields_def read32BE_write32BE read32BE_write32BE_other
      read32BE_write16BE_other read32BE_update_other read32BE_constant_runs)

lemma read32BE_slots_other:
  "p + 3 < 58 \<Longrightarrow> read32BE (fold (put_slot sl) [0..<n] b) p = read32BE b p"
  by (rule read32BE_cong) (simp add: nth_slots_other)

lemma read32BE_getBuffer_put_slices:
  "p + 3 < 830 \<Longrightarrow> read32BE (getBuffer m) p = read32BE (put_slices m) p"
  by (simp add: getBuffer_def Let_def read32BE_write16BE_other)

lemma read32BE_getBuffer_fields:
  "p + 3 < 58 \<Longrightarrow> read32BE (getBuffer m) p = read32BE (put_fields m) p"
  by (simp add: read32BE_getBuffer_put_slices put_slices_def read32BE_write32BE_other
      read32BE_slots_other)

lemma read32BE_getBuffer_count:
  "read32BE (getBuffer m) 826 = of_nat (length (slices m))"
  by (simp add: read32BE_getBuffer_put_slices put_slices_def read32BE_write32BE)

lemma read32BE_getBuffer_slot:
  assumes "i < 64" and "i < length (slices m)"
  shows "read32BE (getBuffer m) (58 + i * 12) = slice_start (slices m ! i)
       \<and> read32BE (getBuffer m) (58 + i * 12 + 4) = slice_end (slices m ! i)
       \<and> read32BE (getBuffer m) (58 + i * 12 + 8) = 0xFFFFFFFF"
proof -
  have "read32BE (getBuffer m) (58 + i * 12 + k)
        = read32BE (fold (put_slot (slices m)) [0..<64] (put_fields m)) (58 + i * 12 + k)"
    if "k \<le> 8" for k
    using that assms(1)
    by (simp add: read32BE_getBuffer_put_slices put_slices_def read32BE_write32BE_other)
  from this [of 0] this [of 4] this [of 8]
    read32BE_slots [of i 64 "slices m" "put_fields m"] assms
  show ?thesis by simp
qed

lemma getBuffer_unused_zero:
  assumes "58 + length (slices m) * 12 \<le> j" and "j < 826"
  shows "getBuffer m ! j = 0"
proof -
  from assms have "58 + min 64 (length (slices m)) * 12 \<le> j"
    by (simp add: min_def)
  then have "fold (put_slot (slices m)) [0..<64] (put_fields m) ! j = put_fields m ! j"
    by (simp add: nth_slots_other)
  with assms show ?thesis
    by (simp add: getBuffer_def Let_def put_slices_def nth_write16BE_other
        nth_write32BE_other put_fields_zero)
qed

subsection \<open>The checksum\<close>

lemma checksum_fold:
  "fold (\<lambda>i checksum. checksum + ucast (b ! i)) is (c :: u16)
   = c + of_nat (sum_list (map (\<lambda>i. unat (b ! i :: u8)) is))"
  by (induction "is" arbitrary: c) (simp_all add: add.assoc)

lemma unat_checksum_of:
  "unat (checksum_of b) = (\<Sum>i = 16..829. unat (b ! i)) mod 65536"
proof -
  have "{16..829::nat} = {16..<830}"
    by auto
  also have "\<dots> = set [16..<830]"
    by (simp only: set_upt)
  finally have "(\<Sum>i = 16..829. unat (b ! i)) = sum_list (map (\<lambda>i. unat (b ! i)) [16..<830])"
    by (simp only: sum_set_upt_conv_sum_list_nat)
  moreover have "unat (checksum_of b)
    = sum_list (map (\<lambda>i. unat (b ! i)) [16..<830]) mod 2 ^ LENGTH(16)"
    unfolding checksum_of_def checksum_fold by (simp only: add_0 unat_of_nat)
  ultimately show ?thesis
    by (simp del: upt_rec_numeral)
qed

lemma checksum_of_cong:
  "(\<And>i. 16 \<le> i \<Longrightarrow> i < 830 \<Longrightarrow> b ! i = b' ! i) \<Longrightarrow> checksum_of b = checksum_of b'"
  unfolding checksum_of_def by (rule fold_cong) (simp_all del: upt_rec_numeral)

lemma checksum_of_getBuffer: "checksum_of (getBuffer m) = checksum_of (put_slices m)"
  by (rule checksum_of_cong) (simp add: getBuffer_def Let_def nth_write16BE_other)

lemma read16BE_getBuffer: "read16BE (getBuffer m) 830 = checksum_of (put_slices m)"
  by (simp add: getBuffer_def Let_def read16BE_write16BE)

subsection \<open>The loop that adds the slices\<close>

lemma addSlice_take:
  "length (slices m) \<le> 64 \<Longrightarrow>
   addSlice m (word_of_int s) (word_of_int e) = m\<lparr>slices := take 64 (slices m @ [cast_slice (s, e)])\<rparr>"
  by (simp add: addSlice_def cast_slice_def)

lemma take_take_append: "take n (take n xs @ ys) = take n (xs @ ys)"
  by (cases "length xs \<le> n") (simp_all add: min_def)

lemma add_slices_those:
  "length (slices ot) \<le> 64 \<Longrightarrow>
   add_slices len tf ps is ot
   = map_option (\<lambda>bs. ot\<lparr>slices := take 64 (slices ot @ map cast_slice bs)\<rparr>)
       (those (map (slice_boundary len tf ps) is))"
proof (induction "is" arbitrary: ot)
  case Nil
  then show ?case by simp
next
  case (Cons i rest)
  show ?case
  proof (cases "slice_boundary len tf ps i")
    case None
    then show ?thesis by simp
  next
    case (Some b)
    obtain s e where b: "b = (s, e)"
      by (cases b)
    let ?ot = "ot\<lparr>slices := take 64 (slices ot @ [cast_slice (s, e)])\<rparr>"
    let ?T = "those (map (slice_boundary len tf ps) rest)"
    have step: "add_slices len tf ps (i # rest) ot = add_slices len tf ps rest ?ot"
      using Some b Cons.prems by (simp add: addSlice_take del: take_append)
    have "length (slices ?ot) \<le> 64"
      by simp
    from Cons.IH [OF this] have ih: "add_slices len tf ps rest ?ot
      = map_option (\<lambda>bs. ?ot\<lparr>slices := take 64 (slices ?ot @ map cast_slice bs)\<rparr>) ?T" .
    have eq: "?ot\<lparr>slices := take 64 (slices ?ot @ map cast_slice bs)\<rparr>
      = ot\<lparr>slices := take 64 (slices ot @ map cast_slice ((s, e) # bs))\<rparr>" for bs
      by (simp add: take_take_append del: take_append)
    show ?thesis
      unfolding step ih eq using Some b by (cases ?T) simp_all
  qed
qed

lemma those_map_Some:
  "those (map f is) = Some bs \<Longrightarrow>
   length bs = length is \<and> (\<forall>k<length is. f (is ! k) = Some (bs ! k))"
proof (induction "is" arbitrary: bs)
  case Nil
  then show ?case by simp
next
  case (Cons i rest)
  then show ?case
    by (auto split: option.splits simp: nth_Cons split: nat.splits)
qed

lemma slice_boundaries_Some:
  assumes "slice_boundaries len tf ps = Some bs"
  shows "length bs = length ps"
    and "i < length ps \<Longrightarrow> slice_boundary len tf ps i = Some (bs ! i)"
  using those_map_Some [OF assms [unfolded slice_boundaries_def]] by simp_all

lemma octa_metadata_eq:
  assumes "OctatrackMetadata_new bpm sr tf = Some ot"
    and "slice_boundaries len tf ps = Some bs"
  shows "octa_metadata bpm sr tf len ps = Some (getBuffer (ot\<lparr>slices := map cast_slice (take 64 bs)\<rparr>))"
proof -
  from assms(1) have "slices ot = []"
    by (auto simp add: OctatrackMetadata_new_def split: if_splits bind_splits)
  with assms add_slices_those [of ot len tf ps "[0..<length ps]"] show ?thesis
    by (simp add: octa_metadata_def slice_boundaries_def take_map)
qed

subsection \<open>One boundary\<close>

lemma raw_end_raw_start:
  "raw_end p len tf = Some re \<Longrightarrow> raw_start p len tf = Some (re + 1)"
  by (auto simp add: raw_end_def raw_start_def int_sub_def split: bind_splits if_splits)

lemma raw_start_marker_frame:
  "raw_start p len tf = Some rs \<Longrightarrow> marker_frame p len tf = Some (rs + 64)"
  by (auto simp add: raw_start_def int_add_def PREVIEW_LATENCY_COMPENSATION_def
      split: bind_splits if_splits)

lemma slice_boundary_last:
  assumes "slice_boundary len tf ps i = Some (s, e)" and "i + 1 = length ps"
  shows "e = tf - 1" and "\<exists>rs. raw_start (ps ! i) len tf = Some rs \<and> s = max 0 rs"
  using assms
  by (auto simp add: slice_boundary_def int_sub_def split: bind_splits if_splits)

lemma slice_boundary_inner:
  assumes "slice_boundary len tf ps i = Some (s, e)" and "i + 1 < length ps"
  shows "\<exists>rs re. raw_start (ps ! i) len tf = Some rs \<and> s = max 0 rs
           \<and> raw_end (ps ! (i + 1)) len tf = Some re \<and> e = max 0 re"
  using assms
  by (auto simp add: slice_boundary_def split: bind_splits if_splits)

subsection \<open>Markers for which the boundaries are defined\<close>

text \<open>
  For a positive \<open>fPPQLength\<close>, a length in frames that is a non-negative \<^verbatim>\<open>int\<close> and
  markers between 0 and \<open>fPPQLength\<close>, no conversion and no addition of the loop leaves the
  range of \<^verbatim>\<open>int\<close>: every boundary is produced.
\<close>

lemma trunc_of_int [simp]: "trunc (of_int r) = r"
  by (simp add: trunc_def)

lemma marker_frame_defined:
  assumes "0 < len" and "0 \<le> p" and "p \<le> len" and "0 \<le> tf" and "tf \<le> INT_MAX"
  shows "\<exists>r. marker_frame p len tf = Some r \<and> 0 \<le> r \<and> r \<le> tf"
proof -
  let ?q = "fdiv (of_int p) (of_int len)"
  let ?x = "fmul ?q (of_int tf)"
  from assms have e: "0 \<le> (of_int p / of_int len :: real)" "(of_int p / of_int len :: real) \<le> 1"
    by simp_all
  then have "\<bar>of_int p / of_int len :: real\<bar> < 2 ^ 53"
    by simp
  from fl_int_lower [OF this, of 0] fl_int_upper [OF this, of 1] e
  have q: "0 \<le> ?q" "?q \<le> 1"
    by (simp_all add: fdiv_def)
  with assms(4) have p0: "0 \<le> ?q * of_int tf"
    by (intro mult_nonneg_nonneg) simp_all
  from q assms(4) have "?q * of_int tf \<le> 1 * of_int tf"
    by (intro mult_right_mono) simp_all
  then have p1: "?q * of_int tf \<le> of_int tf"
    by simp
  from assms(5) have "(of_int tf :: real) \<le> of_int INT_MAX"
    by (simp only: of_int_le_iff)
  with p0 p1 have "\<bar>?q * of_int tf\<bar> < 2 ^ 53"
    by (simp add: INT_MAX_def)
  from fl_int_lower [OF this, of 0] fl_int_upper [OF this, of tf] p0 p1
  have x0: "0 \<le> ?x" and x1: "?x \<le> of_int tf"
    by (simp_all add: fmul_def)
  define r where "r = \<lfloor>?x + 1 / 2\<rfloor>"
  from x0 have r0: "0 \<le> r"
    unfolding r_def by simp
  from x1 have "?x + 1 / 2 < of_int (tf + 1)"
    by simp
  then have r1: "r \<le> tf"
    unfolding r_def by (simp only: floor_less_iff [symmetric])
  from x0 have "c_round ?x = of_int r"
    by (simp add: c_round_def r_def)
  then have "marker_frame p len tf = double_to_int (of_int r)"
    using assms(1) by (simp only: marker_frame_def) simp
  with r0 r1 assms(5) show ?thesis
    by (simp add: double_to_int_def INT_MIN_def INT_MAX_def)
qed

lemma slice_boundary_defined:
  assumes "0 < len" and "0 \<le> tf" and "tf \<le> INT_MAX"
    and "\<forall>p\<in>set ps. 0 \<le> p \<and> p \<le> len" and "i < length ps"
  shows "\<exists>b. slice_boundary len tf ps i = Some b"
proof -
  from assms(4,5) have "0 \<le> ps ! i" "ps ! i \<le> len"
    by simp_all
  from marker_frame_defined [OF assms(1) this assms(2,3)]
  obtain r where r: "marker_frame (ps ! i) len tf = Some r" "0 \<le> r" "r \<le> tf"
    by blast
  with assms(3) have s: "raw_start (ps ! i) len tf = Some (r - 64)"
    by (simp add: raw_start_def int_add_def PREVIEW_LATENCY_COMPENSATION_def
        INT_MIN_def INT_MAX_def)
  from assms(2,3) have t: "int_sub tf 1 = Some (tf - 1)"
    by (simp add: int_sub_def INT_MIN_def INT_MAX_def)
  show ?thesis
  proof (cases "i + 1 < length ps")
    case True
    with assms(4) have "0 \<le> ps ! (i + 1)" "ps ! (i + 1) \<le> len"
      by simp_all
    from marker_frame_defined [OF assms(1) this assms(2,3)]
    obtain r' where "marker_frame (ps ! (i + 1)) len tf = Some r'" "0 \<le> r'" "r' \<le> tf"
      by blast
    with assms(3) have "raw_end (ps ! (i + 1)) len tf = Some (r' - 65)"
      by (simp add: raw_end_def int_add_def int_sub_def PREVIEW_LATENCY_COMPENSATION_def
          INT_MIN_def INT_MAX_def)
    with s t True show ?thesis
      by (simp add: slice_boundary_def)
  next
    case False
    with s t show ?thesis
      by (simp add: slice_boundary_def)
  qed
qed

lemma those_map_defined:
  "(\<And>x. x \<in> set xs \<Longrightarrow> \<exists>y. f x = Some y) \<Longrightarrow> \<exists>ys. those (map f xs) = Some ys"
proof (induction xs)
  case Nil
  then show ?case by simp
next
  case (Cons x xs)
  then obtain y ys where "f x = Some y" "those (map f xs) = Some ys"
    by (metis list.set_intros)
  then show ?case by simp
qed

lemma slice_boundaries_defined:
  assumes "0 < len" and "0 \<le> tf" and "tf \<le> INT_MAX"
    and "\<forall>p\<in>set ps. 0 \<le> p \<and> p \<le> len"
  shows "\<exists>bs. slice_boundaries len tf ps = Some bs"
  unfolding slice_boundaries_def
  by (rule those_map_defined) (use slice_boundary_defined [OF assms] in simp)

subsection \<open>The constructor\<close>

lemmas double_eval = fmul_def fdiv_def fadd_def fl_def norm_exp.simps pow2_def
  round_half_even_def frac_def Let_def

lemmas boundary_eval = slice_boundaries_def slice_boundary_def raw_start_def raw_end_def
  marker_frame_def double_to_int_def c_round_def trunc_def int_add_def int_sub_def
  INT_MIN_def INT_MAX_def PREVIEW_LATENCY_COMPENSATION_def double_eval

lemma uint_word_of_int_u32:
  "0 \<le> k \<Longrightarrow> k < 4294967296 \<Longrightarrow> uint (word_of_int k :: u32) = k"
  by (simp add: uint_word_of_int take_bit_int_eq_self)

lemma double_to_u32_Some:
  "double_to_u32 x = Some w \<Longrightarrow> 0 \<le> x \<Longrightarrow> uint w = \<lfloor>x\<rfloor> \<and> \<lfloor>x\<rfloor> < 4294967296"
  by (auto simp add: double_to_u32_def trunc_def uint_word_of_int take_bit_int_eq_self
      split: if_splits)

lemma OctatrackMetadata_new_Some:
  assumes "OctatrackMetadata_new bpm sr tf = Some m"
  shows "double_to_u32 (fmul (fl bpm) 24) = Some (tempo_val m)"
    and "double_to_u32 (fmul (bars_of bpm sr tf) 25) = Some (trim_len m)"
    and "trim_end m = word_of_int tf" and "slices m = []" and "sr \<noteq> 0"
  using assms
  by (auto simp add: OctatrackMetadata_new_def split: if_splits bind_splits)

lemma round_floor_cases:
  "round (x :: real) = (if frac x < 1 / 2 then \<lfloor>x\<rfloor> else \<lfloor>x\<rfloor> + 1)"
proof -
  have "frac (1 / 2 :: real) = 1 / 2" and "\<lfloor>1 / 2 :: real\<rfloor> = 0"
    by (simp_all add: frac_def)
  then show ?thesis
    unfolding round_def floor_add [of x "1 / 2"] by auto
qed

lemma floor_eq_round_iff: "\<lfloor>x :: real\<rfloor> = round x \<longleftrightarrow> frac x < 1 / 2"
  by (simp add: round_floor_cases)

text \<open>A value that rounds to less than \<open>2 ^ 53\<close> is itself below \<open>2 ^ 53\<close>.\<close>

lemma fl_less_2_53: "fl x < 2 ^ 53 \<Longrightarrow> x < 2 ^ 53"
  using fl_ge_2_53 [of x] by linarith

lemma floor_fl_bounds:
  assumes "0 \<le> x" and "fl x < 2 ^ 53"
  shows "\<lfloor>x\<rfloor> \<le> \<lfloor>fl x\<rfloor>" and "\<lfloor>fl x\<rfloor> \<le> \<lceil>x\<rceil>"
proof -
  from assms fl_less_2_53 [OF assms(2)] have a: "\<bar>x\<bar> < 2 ^ 53"
    by simp
  from fl_int_lower [OF a, of "\<lfloor>x\<rfloor>"] have "of_int \<lfloor>x\<rfloor> \<le> fl x"
    by simp
  then show "\<lfloor>x\<rfloor> \<le> \<lfloor>fl x\<rfloor>"
    by (simp only: le_floor_iff)
  from fl_int_upper [OF a, of "\<lceil>x\<rceil>"] have "fl x \<le> of_int \<lceil>x\<rceil>"
    by simp
  then show "\<lfloor>fl x\<rfloor> \<le> \<lceil>x\<rceil>"
    by (simp add: floor_le_iff)
qed

text \<open>The divisor \<^verbatim>\<open>(double)sampleRate * 60.0 * 4.0\<close> is exact.\<close>

lemma divisor_exact:
  assumes "0 < sr" and "sr \<le> INT_MAX"
  shows "fmul (fmul (of_int sr) 60) 4 = of_int sr * 240"
proof -
  from assms have r: "\<bar>sr * 60\<bar> < 2 ^ 53" "\<bar>sr * 60 * 4\<bar> < 2 ^ 53"
    by (simp_all add: INT_MAX_def)
  from fl_of_int [OF r(1)] have a: "fl (of_int sr * 60) = of_int sr * 60"
    by (simp only: of_int_mult of_int_numeral)
  from fl_of_int [OF r(2)] have b: "fl (of_int sr * 60 * 4) = of_int sr * 60 * 4"
    by (simp only: of_int_mult of_int_numeral)
  show ?thesis
    unfolding fmul_def a b by simp
qed

text \<open>
  Three roundings separate the sum \<open>x + 1 / 2\<close> of the constructor from its exact value:
  of the product, of the quotient and of the sum.
\<close>

lemma bars_sum_error:
  assumes "0 \<le> P" and "1 \<le> d"
  shows "\<bar>fadd (fdiv (fmul P 1) d) (1 / 2) - (P / d + 1 / 2)\<bar> \<le> (P / d + 1 / 2) / 2 ^ 51"
proof -
  define u :: real where "u = 1 / 2 ^ 53"
  define h :: real where "h = pow2 (- 1075)"
  define x where "x = P / d"
  define a where "a = fl P"
  define y where "y = a / d"
  define t where "t = fl y"
  define z where "z = t + 1 / 2"
  define s where "s = fl z"
  have u: "0 < u" "u \<le> 1 / 8"
    by (simp_all add: u_def)
  have "pow2 (- 1075) \<le> pow2 (- 55)"
    by simp
  moreover have "pow2 (- 55) = u / 4"
    by (simp add: pow2_def u_def)
  ultimately have h: "0 < h" "h \<le> u / 4"
    by (simp_all add: h_def)
  from assms have x0: "0 \<le> x"
    by (simp add: x_def)
  from assms(1) have a0: "0 \<le> a"
    unfolding a_def by (rule fl_nonneg)
  with assms(2) have y0: "0 \<le> y"
    by (simp add: y_def)
  then have t0: "0 \<le> t"
    unfolding t_def by (rule fl_nonneg)
  have e0: "\<bar>a - P\<bar> \<le> P * u + h"
    using fl_error [of P] assms(1) by (simp add: a_def u_def h_def)
  have "\<bar>y - x\<bar> = \<bar>a - P\<bar> / d"
    using assms(2) by (simp add: y_def x_def diff_divide_distrib [symmetric])
  also from e0 assms(2) have "\<dots> \<le> (P * u + h) / d"
    by (simp add: divide_right_mono)
  also have "\<dots> = x * u + h / d"
    by (simp add: x_def add_divide_distrib)
  also from assms(2) h(1) have "h / d \<le> h"
    by (simp add: divide_le_eq mult_le_cancel_left1)
  finally have e1: "\<bar>y - x\<bar> \<le> x * u + h"
    by simp
  have e2: "\<bar>t - y\<bar> \<le> y * u + h"
    using fl_error [of y] y0 by (simp add: t_def u_def h_def)
  have e3: "\<bar>s - z\<bar> \<le> z * u + h"
    using fl_error [of z] t0 by (simp add: s_def z_def u_def h_def)
  have m1: "\<bar>y - x\<bar> * u \<le> \<bar>y - x\<bar> * (1 / 8)"
    using u(2) by (intro mult_left_mono) simp_all
  have m2: "\<bar>t - y\<bar> * u \<le> \<bar>t - y\<bar> * (1 / 8)"
    using u(2) by (intro mult_left_mono) simp_all
  have "y \<le> x + \<bar>y - x\<bar>"
    by linarith
  then have "y * u \<le> (x + \<bar>y - x\<bar>) * u"
    using u(1) by (intro mult_right_mono) simp_all
  with m1 have f1: "y * u \<le> x * u + \<bar>y - x\<bar> / 8"
    by (simp add: algebra_simps)
  have "z \<le> x + \<bar>y - x\<bar> + \<bar>t - y\<bar> + 1 / 2"
    unfolding z_def by linarith
  then have "z * u \<le> (x + \<bar>y - x\<bar> + \<bar>t - y\<bar> + 1 / 2) * u"
    using u(1) by (intro mult_right_mono) simp_all
  with m1 m2 have f2: "z * u \<le> x * u + \<bar>y - x\<bar> / 8 + \<bar>t - y\<bar> / 8 + u / 2"
    by (simp add: algebra_simps)
  have xu: "0 \<le> x * u"
    using x0 u(1) by simp
  have "\<bar>s - (x + 1 / 2)\<bar> \<le> \<bar>s - z\<bar> + \<bar>t - y\<bar> + \<bar>y - x\<bar>"
    unfolding z_def by linarith
  with e1 e2 e3 f1 f2 xu h have "\<bar>s - (x + 1 / 2)\<bar> \<le> 4 * (x * u) + 2 * u"
    by linarith
  also have "4 * (x * u) + 2 * u = (x + 1 / 2) / 2 ^ 51"
    by (simp add: u_def field_simps)
  finally show ?thesis
    by (simp add: s_def z_def t_def y_def a_def x_def fadd_def fdiv_def fmul_def)
qed

subsection \<open>The text of the exporter\<close>

lemma xml_slices_those:
  "xml_slices sr len tf ps
   = map_option (\<lambda>starts. concat (map (\<lambda>s. slice_element s sr) starts))
       (those (map (\<lambda>p. map_option (max 0) (raw_start p len tf)) ps))"
proof (induction ps)
  case Nil
  then show ?case by simp
next
  case (Cons p rest)
  show ?case
  proof (cases "raw_start p len tf")
    case None
    then show ?thesis by simp
  next
    case (Some rs)
    with Cons.IH show ?thesis
      by (cases "those (map (\<lambda>p. map_option (max 0) (raw_start p len tf)) rest)") simp_all
  qed
qed

lemma round_half_even_nonneg: "0 \<le> y \<Longrightarrow> 0 \<le> round_half_even y"
  by (simp add: round_half_even_def)

lemma digit_char_value:
  assumes "d < 10"
  shows "digit_value (digit_char d) = d" and "digit_char d \<in> set ''0123456789''"
proof -
  have u: "[0..<10] = [0, 1, 2, 3, 4, 5, 6, 7, 8, 9 :: nat]"
    by (simp add: upt_conv_Cons)
  have "list_all (\<lambda>d. digit_value (digit_char d) = d \<and> digit_char d \<in> set ''0123456789'')
    [0, 1, 2, 3, 4, 5, 6, 7, 8, 9]"
    by (simp add: digit_char_def digit_value_def)
  then have "\<forall>d\<in>set [0..<10]. digit_value (digit_char d) = d \<and> digit_char d \<in> set ''0123456789''"
    by (simp only: list_all_iff u)
  moreover from assms have "d \<in> set [0..<10]"
    by (simp only: set_upt atLeastLessThan_iff) simp
  ultimately have "digit_value (digit_char d) = d \<and> digit_char d \<in> set ''0123456789''"
    by (rule bspec)
  then show "digit_value (digit_char d) = d" and "digit_char d \<in> set ''0123456789''"
    by (rule conjunct1, rule conjunct2)
qed

lemma digits_value_snoc: "digits_value (s @ [c]) = 10 * digits_value s + digit_value c"
  by (simp add: digits_value_def)

lemma dec_digits_value: "digits_value (dec_digits n) = n"
proof (induction n rule: dec_digits.induct)
  case (1 n)
  show ?case
  proof (cases "n < 10")
    case True
    then show ?thesis
      by (simp add: digits_value_def digit_char_value(1))
  next
    case False
    with "1.IH" have "digits_value (dec_digits (n div 10)) = n div 10"
      by simp
    moreover from False have "dec_digits n = dec_digits (n div 10) @ [digit_char (n mod 10)]"
      by simp
    ultimately show ?thesis
      by (simp only: digits_value_snoc digit_char_value(1) [of "n mod 10"]) simp
  qed
qed

lemma dec_digits_digits: "dec_digits n \<noteq> [] \<and> set (dec_digits n) \<subseteq> set ''0123456789''"
proof (induction n rule: dec_digits.induct)
  case (1 n)
  show ?case
  proof (cases "n < 10")
    case True
    with digit_char_value(2) [of n] show ?thesis
      by simp
  next
    case False
    then have "dec_digits n = dec_digits (n div 10) @ [digit_char (n mod 10)]"
      by simp
    moreover from "1.IH" False have "set (dec_digits (n div 10)) \<subseteq> set ''0123456789''"
      by simp
    moreover have "digit_char (n mod 10) \<in> set ''0123456789''"
      by (rule digit_char_value(2)) simp
    ultimately show ?thesis
      by (simp only: set_append) auto
  qed
qed

lemma pad6_value:
  assumes "n < 1000000"
  shows "digits_value (pad6 n) = n"
proof -
  define a1 a2 a3 a4 a5 where "a1 = n div 10" and "a2 = a1 div 10" and "a3 = a2 div 10"
    and "a4 = a3 div 10" and "a5 = a4 div 10"
  have d: "n div 100 = a2" "n div 1000 = a3" "n div 10000 = a4" "n div 100000 = a5"
    by (simp_all add: a1_def a2_def a3_def a4_def a5_def div_mult2_eq [symmetric])
  have "n div 1000000 = a5 div 10"
    by (simp add: a1_def a2_def a3_def a4_def a5_def div_mult2_eq [symmetric])
  with assms have z: "a5 div 10 = 0"
    by simp
  have "digits_value (pad6 n)
    = 100000 * (a5 mod 10) + 10000 * (a4 mod 10) + 1000 * (a3 mod 10) + 100 * (a2 mod 10)
      + 10 * (a1 mod 10) + n mod 10"
    by (simp add: pad6_def digits_value_def digit_char_value(1) d a1_def)
  also have "\<dots> = n"
    using div_mult_mod_eq [of n 10] div_mult_mod_eq [of a1 10] div_mult_mod_eq [of a2 10]
      div_mult_mod_eq [of a3 10] div_mult_mod_eq [of a4 10] div_mult_mod_eq [of a5 10] z
    unfolding a1_def [symmetric] a2_def [symmetric] a3_def [symmetric] a4_def [symmetric]
      a5_def [symmetric]
    by linarith
  finally show ?thesis .
qed

lemma pad6_digits: "length (pad6 n) = 6 \<and> set (pad6 n) \<subseteq> set ''0123456789''"
proof -
  have "digit_char (k mod 10) \<in> set ''0123456789''" for k
    by (rule digit_char_value(2)) simp
  from this [of "n div 100000"] this [of "n div 10000"] this [of "n div 1000"]
    this [of "n div 100"] this [of "n div 10"] this [of n]
  show ?thesis
    unfolding pad6_def by (simp only: list.set length_Cons list.size) simp
qed

lemma dec_digits_no_leading_zero:
  "0 < n \<Longrightarrow> 0 < digit_value (hd (dec_digits n))"
proof (induction n rule: dec_digits.induct)
  case (1 n)
  show ?case
  proof (cases "n < 10")
    case True
    with 1(2) digit_char_value [of n] show ?thesis
      by (simp add: dec_digits.simps [of n])
  next
    case False
    then have "0 < n div 10"
      by simp
    from 1(1) [OF False this] dec_digits_digits [of "n div 10"] False show ?thesis
      by (simp add: dec_digits.simps [of n])
  qed
qed

lemma dec_digits_canonical:
  "length (dec_digits n) = 1 \<or> 0 < digit_value (hd (dec_digits n))"
proof (cases "n < 10")
  case True
  then show ?thesis
    by (simp add: dec_digits.simps [of n])
next
  case False
  then have "0 < n"
    by simp
  from dec_digits_no_leading_zero [OF this] show ?thesis
    by simp
qed

lemma fixed6_decodes:
  assumes "0 \<le> x"
  shows "\<exists>ip fp. fixed6 x = ip @ ''.'' @ fp \<and> ip \<noteq> [] \<and> length fp = 6
           \<and> set (ip @ fp) \<subseteq> set ''0123456789''
           \<and> (length ip = 1 \<or> 0 < digit_value (hd ip))
           \<and> \<bar>of_nat (digits_value ip) + of_nat (digits_value fp) / 1000000 - fl x\<bar>
               \<le> 1 / 2000000"
proof -
  define y where "y = fl x"
  define n where "n = nat (round_half_even (\<bar>y\<bar> * 1000000))"
  define ip where "ip = dec_digits (n div 1000000)"
  define fp where "fp = pad6 (n mod 1000000)"
  from assms have y: "0 \<le> y"
    unfolding y_def by (rule fl_nonneg)
  then have "0 \<le> round_half_even (y * 1000000)"
    by (intro round_half_even_nonneg) simp
  with y have n: "of_nat n = (of_int (round_half_even (y * 1000000)) :: real)"
    by (simp add: n_def)
  have "\<bar>of_int (round_half_even (y * 1000000)) - y * 1000000\<bar> \<le> 1 / 2"
    by (rule round_half_even_near)
  then have near: "\<bar>of_nat n / 1000000 - y\<bar> \<le> 1 / 2000000"
    unfolding n by (simp add: field_simps abs_le_iff)
  have "digits_value ip = n div 1000000"
    unfolding ip_def by (rule dec_digits_value)
  moreover have "digits_value fp = n mod 1000000"
    unfolding fp_def by (rule pad6_value) simp
  ultimately have "(of_nat (digits_value ip) + of_nat (digits_value fp) / 1000000 :: real)
    = of_nat (n div 1000000 * 1000000 + n mod 1000000) / 1000000"
    by (simp only: of_nat_add of_nat_mult add_divide_distrib)
  then have v: "(of_nat (digits_value ip) + of_nat (digits_value fp) / 1000000 :: real)
    = of_nat n / 1000000"
    by (simp only: div_mult_mod_eq)
  from assms have "fixed6 x = ip @ ''.'' @ fp"
    by (simp add: fixed6_def n_def y_def ip_def fp_def Let_def)
  moreover have "ip \<noteq> []" "set ip \<subseteq> set ''0123456789''"
    unfolding ip_def using dec_digits_digits [of "n div 1000000"] by blast+
  moreover have "length fp = 6" "set fp \<subseteq> set ''0123456789''"
    unfolding fp_def using pad6_digits [of "n mod 1000000"] by blast+
  moreover have "length ip = 1 \<or> 0 < digit_value (hd ip)"
    unfolding ip_def by (rule dec_digits_canonical)
  ultimately show ?thesis
    using near unfolding v [symmetric] y_def by (intro exI [of _ ip] exI [of _ fp]) simp
qed

lemma fl_error_normal:
  assumes "pow2 (- 1022) \<le> \<bar>x\<bar>"
  shows "\<bar>fl x - x\<bar> \<le> \<bar>x\<bar> / 2 ^ 53"
proof -
  define k where "k = max (norm_exp \<bar>x\<bar>) (- 1022) - 52"
  from norm_exp_ge [OF assms] have k: "k = norm_exp \<bar>x\<bar> + (- 52)"
    by (simp add: k_def)
  have f: "fl x = of_int (round_half_even (x / pow2 k)) * pow2 k"
    by (simp add: fl_def Let_def k_def)
  have "\<bar>of_int (round_half_even (x / pow2 k)) - x / pow2 k\<bar> \<le> 1 / 2"
    by (rule round_half_even_near)
  then have "\<bar>of_int (round_half_even (x / pow2 k)) - x / pow2 k\<bar> * pow2 k \<le> 1 / 2 * pow2 k"
    by (intro mult_right_mono) simp_all
  moreover have "\<bar>of_int (round_half_even (x / pow2 k)) - x / pow2 k\<bar> * pow2 k = \<bar>fl x - x\<bar>"
  proof -
    have "\<bar>of_int (round_half_even (x / pow2 k)) - x / pow2 k\<bar> * \<bar>pow2 k\<bar>
      = \<bar>(of_int (round_half_even (x / pow2 k)) - x / pow2 k) * pow2 k\<bar>"
      by (simp only: abs_mult)
    also have "(of_int (round_half_even (x / pow2 k)) - x / pow2 k) * pow2 k = fl x - x"
      by (simp add: f algebra_simps)
    finally show ?thesis
      by simp
  qed
  ultimately have e: "\<bar>fl x - x\<bar> \<le> pow2 k / 2"
    by simp
  have "pow2 k = pow2 (norm_exp \<bar>x\<bar>) * pow2 (- 52)"
    unfolding k by (rule pow2_add)
  also have "pow2 (- 52) = 2 / 2 ^ 53"
    by (simp add: pow2_def)
  finally have "pow2 k / 2 = pow2 (norm_exp \<bar>x\<bar>) / 2 ^ 53"
    by simp
  moreover from assms have "0 < \<bar>x\<bar>"
    using pow2_pos [of "- 1022"] by linarith
  with norm_exp_bounds [of "\<bar>x\<bar>"] have "pow2 (norm_exp \<bar>x\<bar>) \<le> \<bar>x\<bar>"
    by simp
  then have "pow2 (norm_exp \<bar>x\<bar>) / 2 ^ 53 \<le> \<bar>x\<bar> / 2 ^ 53"
    by (simp add: divide_right_mono)
  ultimately show ?thesis
    using e by linarith
qed

lemma fdiv_start_error:
  assumes "0 \<le> s" and "0 < sr" and "sr \<le> INT_MAX"
  shows "0 \<le> fdiv (of_int s) (of_int sr)"
    and "\<bar>fdiv (of_int s) (of_int sr) - of_int s / of_int sr\<bar> \<le> (of_int s / of_int sr) / 2 ^ 53"
proof -
  let ?x = "of_int s / of_int sr :: real"
  from assms have x: "0 \<le> ?x"
    by simp
  then show "0 \<le> fdiv (of_int s) (of_int sr)"
    unfolding fdiv_def by (rule fl_nonneg)
  show "\<bar>fdiv (of_int s) (of_int sr) - ?x\<bar> \<le> ?x / 2 ^ 53"
  proof (cases "s = 0")
    case True
    then show ?thesis
      by (simp add: fdiv_def)
  next
    case False
    with assms(1) have "1 \<le> s"
      by simp
    from assms(3) have "(of_int sr :: real) \<le> of_int INT_MAX"
      by (simp only: of_int_le_iff)
    then have "(of_int sr :: real) \<le> 2 ^ 31"
      by (simp add: INT_MAX_def)
    with assms(2) have "1 / 2 ^ 31 \<le> 1 / (of_int sr :: real)"
      by (intro divide_left_mono) simp_all
    also from \<open>1 \<le> s\<close> assms(2) have "1 / (of_int sr :: real) \<le> ?x"
      by (simp add: divide_right_mono)
    finally have "pow2 (- 31) \<le> ?x"
      by (simp add: pow2_def)
    moreover have "pow2 (- 1022) \<le> pow2 (- 31)"
      by simp
    ultimately have "pow2 (- 1022) \<le> \<bar>?x\<bar>"
      using x by linarith
    from fl_error_normal [OF this] x show ?thesis
      by (simp add: fdiv_def)
  qed
qed

lemma raw_start_defined:
  assumes "0 < len" and "0 \<le> p" and "p \<le> len" and "0 \<le> tf" and "tf \<le> INT_MAX"
  shows "\<exists>rs. raw_start p len tf = Some rs"
proof -
  from marker_frame_defined [OF assms]
  obtain r where "marker_frame p len tf = Some r" "0 \<le> r" "r \<le> tf"
    by blast
  with assms(5) show ?thesis
    by (simp add: raw_start_def int_add_def PREVIEW_LATENCY_COMPENSATION_def
        INT_MIN_def INT_MAX_def)
qed

lemma xml_document_defined:
  assumes "0 < sr" and "0 < len" and "0 \<le> tf" and "tf \<le> INT_MAX"
    and "\<forall>p\<in>set ps. 0 \<le> p \<and> p \<le> len"
  shows "\<exists>doc. xml_document baseName sr len tf ps = Some doc"
proof -
  have "\<exists>y. map_option (max 0) (raw_start p len tf) = Some y" if "p \<in> set ps" for p
    using raw_start_defined [OF assms(2) _ _ assms(3,4), of p] assms(5) that by auto
  then have "\<exists>starts. those (map (\<lambda>p. map_option (max 0) (raw_start p len tf)) ps) = Some starts"
    by (rule those_map_defined)
  with assms(1) show ?thesis
    by (auto simp add: xml_document_def xml_slices_those)
qed

section \<open>Properties\<close>

text \<open>
  C1. The tempo field is not \<open>round (bpm * 24)\<close> for every positive \<open>bpm\<close>: the conversion
  \<^verbatim>\<open>(uint32_t)(bpm * 24.0)\<close> truncates. For \<open>fTempo = 120030\<close> the value of \<open>bpm\<close> is the
  \<^verbatim>\<open>double\<close> next to \<open>120.03\<close>, the product is next to \<open>2880.72\<close>, the field holds
  \<open>2880\<close> and the rounded value is \<open>2881\<close>.
\<close>

theorem tempo_field_rounded_counterexample:
  "OctatrackMetadata_new (tempo_bpm 120030) 44100 88200
     = Some \<lparr>tempo_val = 2880, trim_len = 25, trim_end = 88200, slices = []\<rparr>
   \<and> round (tempo_bpm 120030 * 24) = 2881"
  by (simp add: OctatrackMetadata_new_def double_to_u32_def trunc_def bars_of_def
      tempo_bpm_def round_def double_eval)

text \<open>
  C1, amended. For every positive \<open>bpm\<close> for which the constructor is defined, with \<open>b\<close> the
  \<^verbatim>\<open>double\<close> that the parameter holds (\<open>fl bpm\<close>, which is \<open>bpm\<close> itself for a binary64
  number): the tempo field, in the object and at offset 23 of the buffer, is the binary64
  product of \<open>b\<close> and 24 truncated to an integer. It lies between the floor and the ceiling of
  the exact product \<open>b * 24\<close>, so it is \<open>round (b * 24)\<close> when the exact product is an integer,
  as for \<open>bpm = 120.5\<close> with the product \<open>2892\<close>; and it is the rounded value of the
  binary64 product exactly when the fractional part of that product is below one half.
\<close>

theorem tempo_field_truncated:
  assumes "OctatrackMetadata_new bpm sr tf = Some m" and "0 < bpm"
  shows "uint (tempo_val m) = \<lfloor>fmul (fl bpm) 24\<rfloor>
       \<and> read32BE (getBuffer m) 23 = tempo_val m
       \<and> \<lfloor>fl bpm * 24\<rfloor> \<le> uint (tempo_val m)
       \<and> uint (tempo_val m) \<le> \<lceil>fl bpm * 24\<rceil>
       \<and> (fl bpm * 24 \<in> \<int> \<longrightarrow> uint (tempo_val m) = round (fl bpm * 24))
       \<and> (uint (tempo_val m) = round (fmul (fl bpm) 24) \<longleftrightarrow> frac (fmul (fl bpm) 24) < 1 / 2)"
proof -
  from assms(2) have "0 \<le> fl bpm"
    by (intro fl_nonneg) simp
  then have x: "0 \<le> fl bpm * 24"
    by simp
  then have "0 \<le> fmul (fl bpm) 24"
    unfolding fmul_def by (rule fl_nonneg)
  from double_to_u32_Some [OF OctatrackMetadata_new_Some(1) [OF assms(1)] this]
  have t: "uint (tempo_val m) = \<lfloor>fmul (fl bpm) 24\<rfloor>" and r: "\<lfloor>fmul (fl bpm) 24\<rfloor> < 4294967296"
    by simp_all
  from r have "fmul (fl bpm) 24 < 4294967296"
    by (simp add: floor_less_iff)
  then have "fl (fl bpm * 24) < 2 ^ 53"
    by (simp add: fmul_def)
  from floor_fl_bounds [OF x this]
  have b: "\<lfloor>fl bpm * 24\<rfloor> \<le> \<lfloor>fmul (fl bpm) 24\<rfloor>" "\<lfloor>fmul (fl bpm) 24\<rfloor> \<le> \<lceil>fl bpm * 24\<rceil>"
    by (simp_all add: fmul_def)
  have i: "\<lfloor>fmul (fl bpm) 24\<rfloor> = round (fl bpm * 24)" if "fl bpm * 24 \<in> \<int>"
  proof -
    from that obtain n where n: "fl bpm * 24 = of_int n"
      by (auto elim: Ints_cases)
    with b show ?thesis
      by (simp only: n floor_of_int ceiling_of_int round_of_int)
  qed
  have "\<lfloor>fmul (fl bpm) 24\<rfloor> = round (fmul (fl bpm) 24) \<longleftrightarrow> frac (fmul (fl bpm) 24) < 1 / 2"
    by (rule floor_eq_round_iff)
  with t b i show ?thesis
    by (simp add: read32BE_getBuffer_fields read32BE_put_fields)
qed

theorem tempo_field_truncated_witness:
  "OctatrackMetadata_new (241 / 2) 44100 88200
     = Some \<lparr>tempo_val = 2892, trim_len = 25, trim_end = 88200, slices = []\<rparr>
   \<and> (0 :: real) < 241 / 2
   \<and> uint (tempo_val \<lparr>tempo_val = 2892, trim_len = 25, trim_end = 88200, slices = []\<rparr>)
       = \<lfloor>fmul (fl (241 / 2)) 24\<rfloor>
   \<and> read32BE (getBuffer \<lparr>tempo_val = 2892, trim_len = 25, trim_end = 88200, slices = []\<rparr>) 23
       = 2892"
proof -
  have c: "OctatrackMetadata_new (241 / 2) 44100 88200
     = Some \<lparr>tempo_val = 2892, trim_len = 25, trim_end = 88200, slices = []\<rparr>"
    by (simp add: OctatrackMetadata_new_def double_to_u32_def trunc_def bars_of_def
        double_eval)
  have p: "(0 :: real) < 241 / 2"
    by simp
  from c p tempo_field_truncated [OF c p] show ?thesis
    by simp
qed

text \<open>
  C2. Whatever the object holds, the 16-bit value stored big-endian at offset 830 of the
  832-byte buffer is the sum of the bytes of that buffer at the offsets 16 to 829, each taken
  as an unsigned 8-bit value, modulo 65536.
\<close>

theorem getBuffer_checksum:
  "unat (read16BE (getBuffer m) 830) = (\<Sum>i = 16..829. unat (getBuffer m ! i)) mod 65536"
  by (simp only: read16BE_getBuffer checksum_of_getBuffer [symmetric] unat_checksum_of)

text \<open>
  C3. With more than 64 markers, the run that constructs the object and computes every
  boundary yields a buffer, with no error alternative: it is the buffer of the object
  holding the first 64 boundaries in input order, so the later boundaries have no part in
  it. Its slice-count field at offset 826 is 64, and slot \<open>i\<close> of the slice table, for each
  \<open>i\<close> below 64, holds the start and the end of boundary \<open>i\<close> and the loop marker.
\<close>

theorem octa_metadata_cap:
  assumes "64 < length ps"
    and "OctatrackMetadata_new bpm sr tf = Some ot"
    and "slice_boundaries len tf ps = Some bs"
  shows "octa_metadata bpm sr tf len ps
           = Some (getBuffer (ot\<lparr>slices := map cast_slice (take 64 bs)\<rparr>))
       \<and> read32BE (getBuffer (ot\<lparr>slices := map cast_slice (take 64 bs)\<rparr>)) 826 = 64
       \<and> (\<forall>i<64.
             read32BE (getBuffer (ot\<lparr>slices := map cast_slice (take 64 bs)\<rparr>)) (58 + i * 12)
               = word_of_int (fst (bs ! i))
           \<and> read32BE (getBuffer (ot\<lparr>slices := map cast_slice (take 64 bs)\<rparr>)) (58 + i * 12 + 4)
               = word_of_int (snd (bs ! i))
           \<and> read32BE (getBuffer (ot\<lparr>slices := map cast_slice (take 64 bs)\<rparr>)) (58 + i * 12 + 8)
               = 0xFFFFFFFF)"
proof -
  let ?m = "ot\<lparr>slices := map cast_slice (take 64 bs)\<rparr>"
  from assms(1,3) have len: "length (slices ?m) = 64"
    by (simp add: slice_boundaries_Some(1))
  then have "read32BE (getBuffer ?m) 826 = 64"
    by (simp only: read32BE_getBuffer_count) simp
  moreover have "read32BE (getBuffer ?m) (58 + i * 12) = word_of_int (fst (bs ! i))
           \<and> read32BE (getBuffer ?m) (58 + i * 12 + 4) = word_of_int (snd (bs ! i))
           \<and> read32BE (getBuffer ?m) (58 + i * 12 + 8) = 0xFFFFFFFF" if "i < 64" for i
  proof -
    from that len have "i < length (slices ?m)"
      by simp
    moreover from that assms(1,3) have "slices ?m ! i = cast_slice (bs ! i)"
      by (simp add: slice_boundaries_Some(1))
    ultimately show ?thesis
      using read32BE_getBuffer_slot [OF that, of ?m] by (simp add: cast_slice_def)
  qed
  ultimately show ?thesis
    using octa_metadata_eq [OF assms(2,3)] by simp
qed

theorem octa_metadata_cap_witness:
  "octa_metadata 120 44100 65000 6500 (map (\<lambda>i. int i * 100) [0..<65])
     = Some (getBuffer
         (\<lparr>tempo_val = 2880, trim_len = 25, trim_end = 65000, slices = []\<rparr>
          \<lparr>slices := map cast_slice
             (take 64 (map (\<lambda>i. (max 0 (int i * 1000 - 64), int i * 1000 + 935)) [0..<64]
                       @ [(63936, 64999)]))\<rparr>))
   \<and> read32BE (getBuffer
         (\<lparr>tempo_val = 2880, trim_len = 25, trim_end = 65000, slices = []\<rparr>
          \<lparr>slices := map cast_slice
             (take 64 (map (\<lambda>i. (max 0 (int i * 1000 - 64), int i * 1000 + 935)) [0..<64]
                       @ [(63936, 64999)]))\<rparr>)) 826 = 64"
proof -
  have n: "64 < length (map (\<lambda>i. int i * 100) [0..<65])"
    by simp
  have c: "OctatrackMetadata_new 120 44100 65000
        = Some \<lparr>tempo_val = 2880, trim_len = 25, trim_end = 65000, slices = []\<rparr>"
    by (simp add: OctatrackMetadata_new_def double_to_u32_def trunc_def bars_of_def
        double_eval)
  have b: "slice_boundaries 6500 65000 (map (\<lambda>i. int i * 100) [0..<65])
        = Some (map (\<lambda>i. (max 0 (int i * 1000 - 64), int i * 1000 + 935)) [0..<64]
                @ [(63936, 64999)])"
    by (simp add: upt_conv_Cons boundary_eval)
  from octa_metadata_cap [OF n c b] show ?thesis
    by blast
qed

text \<open>
  C4. For a non-empty marker list, the last boundary that the Slice Boundary Calculator
  produces has the end frame \<open>totalFrames - 1\<close>. This holds for every \<open>totalFrames\<close>, the
  positive ones among them.
\<close>

theorem last_boundary_end:
  assumes "ps \<noteq> []" and "slice_boundaries len tf ps = Some bs"
  shows "snd (last bs) = tf - 1"
proof -
  from assms have n: "length bs = length ps" and "bs \<noteq> []"
    using slice_boundaries_Some(1) [OF assms(2)] by auto
  then have "last bs = bs ! (length ps - 1)"
    by (simp add: last_conv_nth)
  moreover from assms(1) have "slice_boundary len tf ps (length ps - 1) = Some (bs ! (length ps - 1))"
    by (intro slice_boundaries_Some(2) [OF assms(2)]) simp
  then have "slice_boundary len tf ps (length ps - 1)
    = Some (fst (bs ! (length ps - 1)), snd (bs ! (length ps - 1)))"
    by simp
  from slice_boundary_last(1) [OF this] assms(1) have "snd (bs ! (length ps - 1)) = tf - 1"
    by simp
  ultimately show ?thesis
    by simp
qed

theorem last_boundary_end_witness:
  "[0, 2, 3] \<noteq> ([] :: int list)
   \<and> slice_boundaries 4 1000 [0, 2, 3] = Some [(0, 435), (436, 685), (686, 999)]
   \<and> snd (last [(0, 435), (436, 685), (686 :: int, 999 :: int)]) = 1000 - 1"
proof -
  have n: "[0, 2, 3] \<noteq> ([] :: int list)"
    by simp
  have b: "slice_boundaries 4 1000 [0, 2, 3] = Some [(0, 435), (436, 685), (686, 999)]"
    by (simp add: boundary_eval)
  from n b last_boundary_end [OF n b] show ?thesis
    by blast
qed

text \<open>
  C5. Contiguity. For an index \<open>i\<close> before the last, when neither the end of boundary \<open>i\<close>
  nor the start of boundary \<open>i + 1\<close> was clamped, that is when the arguments of the two
  \<^verbatim>\<open>max(0, ...)\<close> computed from marker \<open>i + 1\<close> are not negative, the end of
  boundary \<open>i\<close> plus one is the start of boundary \<open>i + 1\<close>.
\<close>

theorem boundaries_contiguous:
  assumes "slice_boundaries len tf ps = Some bs"
    and "i + 1 < length ps"
    and "raw_end (ps ! (i + 1)) len tf = Some re" and "0 \<le> re"
    and "raw_start (ps ! (i + 1)) len tf = Some rs" and "0 \<le> rs"
  shows "snd (bs ! i) + 1 = fst (bs ! (i + 1))"
proof -
  from assms(2) have "slice_boundary len tf ps i = Some (fst (bs ! i), snd (bs ! i))"
    by (simp add: slice_boundaries_Some(2) [OF assms(1)])
  from slice_boundary_inner [OF this assms(2)] assms(3,4) have e: "snd (bs ! i) = re"
    by auto
  from assms(2) have b: "slice_boundary len tf ps (i + 1) = Some (fst (bs ! (i + 1)), snd (bs ! (i + 1)))"
    by (simp add: slice_boundaries_Some(2) [OF assms(1)])
  have "\<exists>rs'. raw_start (ps ! (i + 1)) len tf = Some rs' \<and> fst (bs ! (i + 1)) = max 0 rs'"
  proof (cases "i + 1 + 1 < length ps")
    case True
    from slice_boundary_inner [OF b True] show ?thesis by blast
  next
    case False
    with assms(2) have "i + 1 + 1 = length ps" by simp
    from slice_boundary_last(2) [OF b this] show ?thesis .
  qed
  with assms(5,6) have "fst (bs ! (i + 1)) = rs"
    by auto
  moreover from raw_end_raw_start [OF assms(3)] assms(5) have "rs = re + 1"
    by simp
  ultimately show ?thesis
    using e by simp
qed

theorem boundaries_contiguous_witness:
  "slice_boundaries 4 1000 [0, 2, 3] = Some [(0, 435), (436, 685), (686, 999)]
   \<and> 0 + 1 < length [0, 2, 3 :: int]
   \<and> raw_end ([0, 2, 3] ! (0 + 1)) 4 1000 = Some 435 \<and> (0 :: int) \<le> 435
   \<and> raw_start ([0, 2, 3] ! (0 + 1)) 4 1000 = Some 436 \<and> (0 :: int) \<le> 436
   \<and> snd ([(0, 435), (436, 685), (686 :: int, 999 :: int)] ! 0) + 1
       = fst ([(0, 435), (436, 685), (686 :: int, 999 :: int)] ! (0 + 1))"
proof -
  have b: "slice_boundaries 4 1000 [0, 2, 3] = Some [(0, 435), (436, 685), (686, 999)]"
    by (simp add: boundary_eval)
  have i: "0 + 1 < length [0, 2, 3 :: int]"
    by simp
  have e: "raw_end ([0, 2, 3] ! (0 + 1)) 4 1000 = Some 435"
    by (simp add: boundary_eval)
  have e0: "(0 :: int) \<le> 435"
    by simp
  have s: "raw_start ([0, 2, 3] ! (0 + 1)) 4 1000 = Some 436"
    by (simp add: boundary_eval)
  have s0: "(0 :: int) \<le> 436"
    by simp
  from b i e e0 s s0 boundaries_contiguous [OF b i e e0 s s0] show ?thesis
    by blast
qed

text \<open>
  C6. \<open>0 \<le> start\<close> holds for every boundary, \<open>start \<le> end\<close> does not: two markers whose
  rounded frame positions coincide give a boundary whose end is one frame before its start.
\<close>

theorem boundary_order_counterexample:
  "slice_boundaries 1000 100 [700, 701] = Some [(6, 5), (6, 99)]
   \<and> \<not> fst (6 :: int, 5 :: int) \<le> snd (6 :: int, 5 :: int)"
proof -
  have "slice_boundaries 1000 100 [700, 701] = Some [(6, 5), (6, 99)]"
    by (simp add: boundary_eval)
  then show ?thesis
    by simp
qed

text \<open>
  C6, amended. For a positive number of frames, every boundary produced has
  \<open>0 \<le> start\<close> and \<open>0 \<le> end\<close>. With \<open>a\<close> the rounded frame position of the marker of
  the slice: the last slice has \<open>start \<le> end\<close> exactly when \<open>a \<le> totalFrames + 63\<close>; a slice
  before the last, with \<open>b\<close> the rounded frame position of the next marker, has
  \<open>start \<le> end\<close> exactly when \<open>a \<le> 64\<close> or \<open>a < b\<close>.
\<close>

theorem boundary_order:
  assumes "slice_boundaries len tf ps = Some bs" and "i < length ps" and "0 < tf"
    and "marker_frame (ps ! i) len tf = Some a"
  shows "0 \<le> fst (bs ! i) \<and> 0 \<le> snd (bs ! i)
       \<and> (i + 1 = length ps \<longrightarrow> (fst (bs ! i) \<le> snd (bs ! i) \<longleftrightarrow> a \<le> tf + 63))
       \<and> (\<forall>b. i + 1 < length ps \<and> marker_frame (ps ! (i + 1)) len tf = Some b
              \<longrightarrow> (fst (bs ! i) \<le> snd (bs ! i) \<longleftrightarrow> a \<le> 64 \<or> a < b))"
proof -
  from assms(2) have sb: "slice_boundary len tf ps i = Some (fst (bs ! i), snd (bs ! i))"
    by (simp add: slice_boundaries_Some(2) [OF assms(1)])
  show ?thesis
  proof (cases "i + 1 < length ps")
    case True
    from slice_boundary_inner [OF sb True] obtain rs re where
      rs: "raw_start (ps ! i) len tf = Some rs" "fst (bs ! i) = max 0 rs" and
      re: "raw_end (ps ! (i + 1)) len tf = Some re" "snd (bs ! i) = max 0 re"
      by blast
    from raw_start_marker_frame [OF rs(1)] assms(4) have a: "a = rs + 64"
      by simp
    from raw_start_marker_frame [OF raw_end_raw_start [OF re(1)]]
    have "marker_frame (ps ! (i + 1)) len tf = Some (re + 65)"
      by simp
    with True a rs(2) re(2) show ?thesis
      by auto
  next
    case False
    with assms(2) have l: "i + 1 = length ps"
      by simp
    from slice_boundary_last [OF sb l] obtain rs where
      rs: "raw_start (ps ! i) len tf = Some rs" "fst (bs ! i) = max 0 rs" and
      e: "snd (bs ! i) = tf - 1"
      by blast
    from raw_start_marker_frame [OF rs(1)] assms(4) have a: "a = rs + 64"
      by simp
    with l rs(2) e assms(3) show ?thesis
      by auto
  qed
qed

theorem boundary_order_witness:
  "slice_boundaries 4 1000 [0, 2, 3] = Some [(0, 435), (436, 685), (686, 999)]
   \<and> marker_frame ([0, 2, 3] ! 1) 4 1000 = Some 500
   \<and> marker_frame ([0, 2, 3] ! (1 + 1)) 4 1000 = Some 750
   \<and> 0 \<le> fst ([(0, 435), (436, 685), (686 :: int, 999 :: int)] ! 1)
   \<and> (fst ([(0, 435), (436, 685), (686 :: int, 999 :: int)] ! 1)
          \<le> snd ([(0, 435), (436, 685), (686 :: int, 999 :: int)] ! 1)
        \<longleftrightarrow> (500 :: int) \<le> 64 \<or> (500 :: int) < 750)"
proof -
  have b: "slice_boundaries 4 1000 [0, 2, 3] = Some [(0, 435), (436, 685), (686, 999)]"
    by (simp add: boundary_eval)
  have i: "1 < length [0, 2, 3 :: int]"
    by simp
  have t: "(0 :: int) < 1000"
    by simp
  have m: "marker_frame ([0, 2, 3] ! 1) 4 1000 = Some 500"
    by (simp add: boundary_eval)
  have m': "marker_frame ([0, 2, 3] ! (1 + 1)) 4 1000 = Some 750"
    by (simp add: boundary_eval)
  from boundary_order [OF b i t m] i m' have
    "fst ([(0, 435), (436, 685), (686 :: int, 999 :: int)] ! 1)
          \<le> snd ([(0, 435), (436, 685), (686 :: int, 999 :: int)] ! 1)
        \<longleftrightarrow> (500 :: int) \<le> 64 \<or> (500 :: int) < 750"
    by (elim conjE allE [of _ 750]) simp
  with b m m' show ?thesis
    by simp
qed

text \<open>
  C7. Whatever the object holds, the buffer is exactly 832 bytes long, and the slots of the
  slice table from the number of slices held onwards are zero in each of their 12 bytes.
  Every other byte of the buffer is written by \<open>getBuffer\<close>: the offsets 0 to 57, the
  slots in use, and the offsets 826 to 831.
\<close>

theorem getBuffer_size_and_zero_fill:
  "length (getBuffer m) = 832
   \<and> (\<forall>i k. length (slices m) \<le> i \<and> i < 64 \<and> k < 12
            \<longrightarrow> getBuffer m ! (58 + i * 12 + k) = 0)"
proof -
  have "getBuffer m ! (58 + i * 12 + k) = 0"
    if "length (slices m) \<le> i" and "i < 64" and "k < 12" for i k
  proof (rule getBuffer_unused_zero)
    from that(1) have "length (slices m) * 12 \<le> i * 12"
      by simp
    then show "58 + length (slices m) * 12 \<le> 58 + i * 12 + k"
      by simp
    from that(2,3) show "58 + i * 12 + k < 826"
      by simp
  qed
  then show ?thesis
    by (simp add: length_getBuffer)
qed

theorem getBuffer_size_and_zero_fill_witness:
  "length (getBuffer \<lparr>tempo_val = 2880, trim_len = 25, trim_end = 88200,
                       slices = [\<lparr>slice_start = 0, slice_end = 88199\<rparr>]\<rparr>) = 832
   \<and> getBuffer \<lparr>tempo_val = 2880, trim_len = 25, trim_end = 88200,
                  slices = [\<lparr>slice_start = 0, slice_end = 88199\<rparr>]\<rparr> ! 70 = 0
   \<and> getBuffer \<lparr>tempo_val = 2880, trim_len = 25, trim_end = 88200,
                  slices = [\<lparr>slice_start = 0, slice_end = 88199\<rparr>]\<rparr> ! 825 = 0"
proof -
  let ?m = "\<lparr>tempo_val = 2880, trim_len = 25, trim_end = 88200,
             slices = [\<lparr>slice_start = 0, slice_end = 88199\<rparr>]\<rparr>"
  note t = getBuffer_size_and_zero_fill [of ?m]
  from t have "getBuffer ?m ! (58 + 1 * 12 + 0) = 0"
    by (elim conjE allE [of _ 1] allE [of _ 0]) simp
  moreover from t have "getBuffer ?m ! (58 + 63 * 12 + 11) = 0"
    by (elim conjE allE [of _ 63] allE [of _ 11]) simp
  ultimately show ?thesis
    using t by simp
qed

text \<open>
  C8. The number of bars is not \<open>round ((bpm * totalFrames) / (sampleRate * 240))\<close> for
  every positive \<open>bpm\<close>, \<open>sampleRate\<close> and \<open>totalFrames\<close>: the product, the quotient and the
  sum are rounded to binary64. For \<open>fTempo = 75600\<close> the value of \<open>bpm\<close> is the
  \<^verbatim>\<open>double\<close> next below \<open>75.6\<close>; with a sample rate of 44100 and 70000 frames the exact
  quotient is just below one half and rounds to 0, while the binary64 product is
  \<open>5292000\<close>, the quotient one half, the number of bars 1 and the trim length 25.
\<close>

theorem trim_fields_counterexample:
  "OctatrackMetadata_new (tempo_bpm 75600) 44100 70000
     = Some \<lparr>tempo_val = 1814, trim_len = 25, trim_end = 70000, slices = []\<rparr>
   \<and> round ((tempo_bpm 75600 * of_int 70000) / (of_int 44100 * 240)) * 25 = 0"
  by (simp add: OctatrackMetadata_new_def double_to_u32_def trunc_def bars_of_def
      tempo_bpm_def round_def double_eval)

text \<open>
  C8, amended. For positive \<open>bpm\<close>, \<open>sampleRate\<close> and \<open>totalFrames\<close>, with \<open>b\<close> the
  \<^verbatim>\<open>double\<close> that the parameter holds (\<open>fl bpm\<close>, which is \<open>bpm\<close> itself for a binary64
  number), \<open>x\<close> the exact quotient \<open>(b * totalFrames) / (sampleRate * 240)\<close> and
  \<open>e = (x + 1 / 2) / 2 ^ 51\<close>: the constructor is defined when \<open>b * 24 \<le> 2 ^ 32 - 1\<close> and \<open>\<lfloor>x + 1 / 2 + e\<rfloor> * 25 < 2 ^ 32\<close>. Whenever it is
  defined, the number of bars is the floor of the binary64 value of \<open>x + 1 / 2\<close>, in which
  the product, the quotient and the sum are rounded and the divisor is exact; it lies between
  the floors of \<open>x + 1 / 2 - e\<close> and \<open>x + 1 / 2 + e\<close>, so it is \<open>round x\<close> unless \<open>x + 1 / 2\<close> is
  within \<open>e\<close> of an integer. The trim length is the number of bars times 25 and is the value
  at the offsets 27 and 31 of the buffer, and the trim end is \<open>totalFrames\<close> and is the value at
  offset 50.
\<close>

theorem trim_fields:
  assumes "0 < bpm" and "0 < sr" and "sr \<le> INT_MAX" and "0 < tf" and "tf \<le> INT_MAX"
  shows "(fl bpm * 24 \<le> 4294967295
          \<and> \<lfloor>(fl bpm * of_int tf) / (of_int sr * 240) + 1 / 2
               + ((fl bpm * of_int tf) / (of_int sr * 240) + 1 / 2) / 2 ^ 51\<rfloor> * 25 < 4294967296
          \<longrightarrow> (\<exists>m. OctatrackMetadata_new bpm sr tf = Some m))
       \<and> (\<forall>m. OctatrackMetadata_new bpm sr tf = Some m \<longrightarrow>
            bars_of bpm sr tf
              = of_int \<lfloor>fadd (fdiv (fmul (fl bpm) (of_int tf)) (of_int sr * 240)) (1 / 2)\<rfloor>
          \<and> \<lfloor>(fl bpm * of_int tf) / (of_int sr * 240) + 1 / 2
               - ((fl bpm * of_int tf) / (of_int sr * 240) + 1 / 2) / 2 ^ 51\<rfloor>
              \<le> \<lfloor>bars_of bpm sr tf\<rfloor>
          \<and> \<lfloor>bars_of bpm sr tf\<rfloor>
              \<le> \<lfloor>(fl bpm * of_int tf) / (of_int sr * 240) + 1 / 2
                   + ((fl bpm * of_int tf) / (of_int sr * 240) + 1 / 2) / 2 ^ 51\<rfloor>
          \<and> uint (trim_len m) = \<lfloor>bars_of bpm sr tf\<rfloor> * 25
          \<and> read32BE (getBuffer m) 27 = trim_len m
          \<and> read32BE (getBuffer m) 31 = trim_len m
          \<and> uint (trim_end m) = tf
          \<and> read32BE (getBuffer m) 50 = trim_end m)"
proof -
  let ?P = "fl bpm * of_int tf"
  let ?d = "of_int sr * 240 :: real"
  let ?s = "fadd (fdiv (fmul (fl bpm) (of_int tf)) ?d) (1 / 2)"
  let ?U = "\<lfloor>?P / ?d + 1 / 2 + (?P / ?d + 1 / 2) / 2 ^ 51\<rfloor>"
  define B where "B = \<lfloor>?s\<rfloor>"
  have bars: "bars_of bpm sr tf = of_int B"
    by (simp add: bars_of_def divisor_exact [OF assms(2,3)] B_def)
  from assms(1) have b0: "0 \<le> fl bpm"
    by (intro fl_nonneg) simp
  with assms(4) have P: "0 \<le> ?P"
    by simp
  from assms(2) have d: "1 \<le> ?d"
    by simp
  have "?s = fadd (fdiv (fmul ?P 1) ?d) (1 / 2)"
    by (simp add: fmul_def)
  with bars_sum_error [OF P d]
  have "\<bar>?s - (?P / ?d + 1 / 2)\<bar> \<le> (?P / ?d + 1 / 2) / 2 ^ 51"
    by simp
  then have b1: "?P / ?d + 1 / 2 - (?P / ?d + 1 / 2) / 2 ^ 51 \<le> ?s"
    and b2: "?s \<le> ?P / ?d + 1 / 2 + (?P / ?d + 1 / 2) / 2 ^ 51"
    by linarith+
  from b1 have lo: "\<lfloor>?P / ?d + 1 / 2 - (?P / ?d + 1 / 2) / 2 ^ 51\<rfloor> \<le> B"
    unfolding B_def by (rule floor_mono)
  from b2 have hi: "B \<le> ?U"
    unfolding B_def by (rule floor_mono)
  have "0 \<le> ?s"
    unfolding fadd_def fdiv_def fmul_def
    by (intro fl_nonneg add_nonneg_nonneg divide_nonneg_nonneg) (use P d in simp_all)
  then have B0: "0 \<le> B"
    by (simp add: B_def)
  have exact: "fmul (of_int B) 25 = of_int (B * 25)" if "B * 25 < 2 ^ 53"
  proof -
    from that B0 have "\<bar>B * 25\<bar> < 2 ^ 53"
      by simp
    from fl_of_int [OF this] show ?thesis
      by (simp add: fmul_def)
  qed
  have defined: "\<exists>m. OctatrackMetadata_new bpm sr tf = Some m"
    if t: "fl bpm * 24 \<le> 4294967295" and u: "?U * 25 < 4294967296"
  proof -
    from b0 have t0: "0 \<le> fl bpm * 24"
      by simp
    then have "0 \<le> fmul (fl bpm) 24"
      unfolding fmul_def by (rule fl_nonneg)
    moreover from t0 t have "\<bar>fl bpm * 24\<bar> < 2 ^ 53"
      by simp
    from fl_int_upper [OF this, of 4294967295] t have "fmul (fl bpm) 24 \<le> 4294967295"
      by (simp add: fmul_def)
    then have "\<lfloor>fmul (fl bpm) 24\<rfloor> < 4294967296"
      by (simp add: floor_less_iff)
    ultimately have 1: "double_to_u32 (fmul (fl bpm) 24) = Some (word_of_int \<lfloor>fmul (fl bpm) 24\<rfloor>)"
      by (simp add: double_to_u32_def trunc_def)
    from hi u have b: "B * 25 < 4294967296"
      by linarith
    then have "B * 25 < 2 ^ 53"
      by simp
    from exact [OF this] have "trunc (fmul (of_int B) 25) = B * 25"
      by (simp only: trunc_of_int)
    with B0 b have 2: "double_to_u32 (fmul (of_int B) 25) = Some (word_of_int (B * 25))"
      unfolding double_to_u32_def by simp
    from assms(2) 1 2 show ?thesis
      by (simp add: OctatrackMetadata_new_def bars)
  qed
  have fields: "uint (trim_len m) = \<lfloor>bars_of bpm sr tf\<rfloor> * 25
          \<and> read32BE (getBuffer m) 27 = trim_len m
          \<and> read32BE (getBuffer m) 31 = trim_len m
          \<and> uint (trim_end m) = tf
          \<and> read32BE (getBuffer m) 50 = trim_end m"
    if m: "OctatrackMetadata_new bpm sr tf = Some m" for m
  proof -
    from B0 have q: "0 \<le> fmul (of_int B) 25"
      unfolding fmul_def by (intro fl_nonneg) simp
    from double_to_u32_Some [OF OctatrackMetadata_new_Some(2) [OF m]] q
    have l: "uint (trim_len m) = \<lfloor>fmul (of_int B) 25\<rfloor>"
      and r: "\<lfloor>fmul (of_int B) 25\<rfloor> < 4294967296"
      by (simp_all add: bars)
    from r have "fmul (of_int B) 25 < 4294967296"
      by (simp add: floor_less_iff)
    then have "fl (of_int (B * 25)) < 2 ^ 53"
      by (simp add: fmul_def)
    then have "(of_int (B * 25) :: real) < of_int (2 ^ 53)"
      using fl_less_2_53 [of "of_int (B * 25)"] by simp
    then have "B * 25 < 2 ^ 53"
      by (simp only: of_int_less_iff)
    from exact [OF this] l have len: "uint (trim_len m) = B * 25"
      by (simp only: floor_of_int)
    from assms(4,5) have "uint (word_of_int tf :: u32) = tf"
      by (intro uint_word_of_int_u32) (simp_all add: INT_MAX_def)
    then have e: "uint (trim_end m) = tf"
      by (simp only: OctatrackMetadata_new_Some(3) [OF m])
    have f: "read32BE (getBuffer m) 27 = trim_len m" "read32BE (getBuffer m) 31 = trim_len m"
      "read32BE (getBuffer m) 50 = trim_end m"
      by (simp_all only: read32BE_getBuffer_fields read32BE_put_fields)
    have "\<lfloor>bars_of bpm sr tf\<rfloor> = B"
      by (simp only: bars floor_of_int)
    with len e f show ?thesis
      by (simp only:)
  qed
  have b: "bars_of bpm sr tf = of_int \<lfloor>?s\<rfloor>"
    by (simp only: bars B_def)
  have fb: "\<lfloor>bars_of bpm sr tf\<rfloor> = B"
    by (simp only: bars floor_of_int)
  from lo hi have lo': "\<lfloor>?P / ?d + 1 / 2 - (?P / ?d + 1 / 2) / 2 ^ 51\<rfloor> \<le> \<lfloor>bars_of bpm sr tf\<rfloor>"
    and hi': "\<lfloor>bars_of bpm sr tf\<rfloor> \<le> ?U"
    by (simp_all only: fb)
  from defined b lo' hi' fields show ?thesis
    by blast
qed

theorem trim_fields_witness:
  "(0 :: real) < 120 \<and> (0 :: int) < 44100 \<and> 44100 \<le> INT_MAX
   \<and> (0 :: int) < 88200 \<and> 88200 \<le> INT_MAX
   \<and> fl 120 * 24 \<le> 4294967295
   \<and> \<lfloor>(fl 120 * of_int 88200) / (of_int 44100 * 240) + 1 / 2
        + ((fl 120 * of_int 88200) / (of_int 44100 * 240) + 1 / 2) / 2 ^ 51\<rfloor> * 25
       < 4294967296
   \<and> OctatrackMetadata_new 120 44100 88200
       = Some \<lparr>tempo_val = 2880, trim_len = 25, trim_end = 88200, slices = []\<rparr>
   \<and> uint (trim_len \<lparr>tempo_val = 2880, trim_len = 25, trim_end = 88200, slices = []\<rparr>)
       = \<lfloor>bars_of 120 44100 88200\<rfloor> * 25
   \<and> read32BE (getBuffer \<lparr>tempo_val = 2880, trim_len = 25, trim_end = 88200, slices = []\<rparr>) 27
       = 25
   \<and> read32BE (getBuffer \<lparr>tempo_val = 2880, trim_len = 25, trim_end = 88200, slices = []\<rparr>) 31
       = 25
   \<and> read32BE (getBuffer \<lparr>tempo_val = 2880, trim_len = 25, trim_end = 88200, slices = []\<rparr>) 50
       = 88200"
proof -
  let ?m = "\<lparr>tempo_val = 2880, trim_len = 25, trim_end = 88200, slices = []\<rparr>"
  have c: "OctatrackMetadata_new 120 44100 88200 = Some ?m"
    by (simp add: OctatrackMetadata_new_def double_to_u32_def trunc_def bars_of_def
        double_eval)
  have h: "(0 :: real) < 120" "(0 :: int) < 44100" "44100 \<le> INT_MAX"
    "(0 :: int) < 88200" "88200 \<le> INT_MAX"
    by (simp_all add: INT_MAX_def)
  have b: "fl 120 = 120"
    by (simp add: double_eval)
  have t: "fl 120 * 24 \<le> 4294967295"
    unfolding b by simp
  have "\<lfloor>((120 :: real) * of_int 88200) / (of_int 44100 * 240) + 1 / 2
        + (((120 :: real) * of_int 88200) / (of_int 44100 * 240) + 1 / 2) / 2 ^ 51\<rfloor> = 1"
    by (simp add: floor_eq_iff)
  then have u: "\<lfloor>(fl 120 * of_int 88200) / (of_int 44100 * 240) + 1 / 2
        + ((fl 120 * of_int 88200) / (of_int 44100 * 240) + 1 / 2) / 2 ^ 51\<rfloor> * 25
       < 4294967296"
    unfolding b by (simp only:)
  note w = trim_fields [OF h]
  from w c have
    "uint (trim_len ?m) = \<lfloor>bars_of 120 44100 88200\<rfloor> * 25
     \<and> read32BE (getBuffer ?m) 27 = trim_len ?m
     \<and> read32BE (getBuffer ?m) 31 = trim_len ?m
     \<and> read32BE (getBuffer ?m) 50 = trim_end ?m"
    by (elim conjE allE [of _ ?m]) (simp only: simp_thms)
  with h t u c show ?thesis
    by simp
qed

text \<open>
  C9. For a marker list of any length, the document that the textual exporter writes is the
  prolog, the opening \<open>audio\<close> tag, one \<open>slice\<close> element per marker in order and the closing
  tag; there is no bound on the number of elements. The element of marker \<open>i\<close> carries the
  one attribute \<open>start\<close> and no end time. The text of the attribute is a non-empty run of
  decimal digits with no leading zero before another digit, a point and six decimal digits;
  read as a decimal number, it lies within
  half a unit of the sixth place, and the rounding error of the one binary64 division,
  of the quotient of the start frame of boundary \<open>i\<close> and the sample rate.
\<close>

theorem xml_document_slices:
  assumes "xml_document baseName sr len tf ps = Some doc" and "sr \<le> INT_MAX"
  shows \<open>\<exists>starts. length starts = length ps
           \<and> (\<forall>i<length ps. map_option (max 0) (raw_start (ps ! i) len tf) = Some (starts ! i))
           \<and> (\<forall>i<length ps. \<forall>s e. slice_boundary len tf ps i = Some (s, e) \<longrightarrow> starts ! i = s)
           \<and> doc = xml_prolog @ audio_open baseName
                   @ concat (map (\<lambda>s. slice_element s sr) starts) @ audio_close
           \<and> (\<forall>i<length ps. \<exists>ip fp.
                 slice_element (starts ! i) sr
                   = ''       <slice start="'' @ ip @ ''.'' @ fp @ ''" />\<newline>''
                 \<and> ip \<noteq> [] \<and> length fp = 6 \<and> set (ip @ fp) \<subseteq> set ''0123456789''
                 \<and> (length ip = 1 \<or> 0 < digit_value (hd ip))
                 \<and> \<bar>of_nat (digits_value ip) + of_nat (digits_value fp) / 1000000
                      - (of_int (starts ! i) / of_int sr :: real)\<bar>
                     \<le> 1 / 2000000 + (of_int (starts ! i) / of_int sr) / 2 ^ 53)\<close>
proof -
  let ?f = "\<lambda>p. map_option (max 0) (raw_start p len tf)"
  from assms have sr: "0 < sr"
    by (simp add: xml_document_def split: if_splits)
  with assms obtain body where body: "xml_slices sr len tf ps = Some body"
    and doc: "doc = xml_prolog @ audio_open baseName @ body @ audio_close"
    by (auto simp add: xml_document_def split: bind_splits)
  from body obtain starts where st: "those (map ?f ps) = Some starts"
    and b: "body = concat (map (\<lambda>s. slice_element s sr) starts)"
    unfolding xml_slices_those by auto
  from those_map_Some [OF st] have l: "length starts = length ps"
    and f: "\<And>i. i < length ps \<Longrightarrow> ?f (ps ! i) = Some (starts ! i)"
    by simp_all
  have g: "starts ! i = s" if "i < length ps" and "slice_boundary len tf ps i = Some (s, e)"
    for i s e
    using f [OF that(1)] that(2)
    by (auto simp add: slice_boundary_def split: bind_splits)
  have p: "0 \<le> starts ! i" if "i < length ps" for i
    using f [OF that] by auto
  have t: \<open>\<exists>ip fp.
      slice_element (starts ! i) sr = ''       <slice start="'' @ ip @ ''.'' @ fp @ ''" />\<newline>''
      \<and> ip \<noteq> [] \<and> length fp = 6 \<and> set (ip @ fp) \<subseteq> set ''0123456789''
      \<and> (length ip = 1 \<or> 0 < digit_value (hd ip))
      \<and> \<bar>of_nat (digits_value ip) + of_nat (digits_value fp) / 1000000
           - (of_int (starts ! i) / of_int sr :: real)\<bar>
          \<le> 1 / 2000000 + (of_int (starts ! i) / of_int sr) / 2 ^ 53\<close>
    if "i < length ps" for i
  proof -
    let ?d = "fdiv (of_int (starts ! i)) (of_int sr)"
    note e = fdiv_start_error [OF p [OF that] sr assms(2)]
    from fixed6_decodes [OF e(1)] obtain ip fp where
      x: "fixed6 ?d = ip @ ''.'' @ fp" "ip \<noteq> []" "length fp = 6"
        "set (ip @ fp) \<subseteq> set ''0123456789''"
        "length ip = 1 \<or> 0 < digit_value (hd ip)"
      and v: "\<bar>of_nat (digits_value ip) + of_nat (digits_value fp) / 1000000 - fl ?d\<bar>
               \<le> 1 / 2000000"
      by blast
    have "fl ?d = ?d"
      unfolding fdiv_def by (rule fl_idem)
    with v have v: "\<bar>of_nat (digits_value ip) + of_nat (digits_value fp) / 1000000 - ?d\<bar>
               \<le> 1 / 2000000"
      by simp
    from v e(2) have "\<bar>of_nat (digits_value ip) + of_nat (digits_value fp) / 1000000
           - (of_int (starts ! i) / of_int sr :: real)\<bar>
          \<le> 1 / 2000000 + (of_int (starts ! i) / of_int sr) / 2 ^ 53"
      by linarith
    moreover have \<open>slice_element (starts ! i) sr
      = ''       <slice start="'' @ ip @ ''.'' @ fp @ ''" />\<newline>''\<close>
      by (simp add: slice_element_def x(1))
    ultimately show ?thesis
      using x(2,3,4,5) by blast
  qed
  from l f g doc b t show ?thesis
    by blast
qed

theorem xml_document_slices_witness:
  \<open>xml_document ''foo'' 48000 1000 1000 [0, 67, 500]
     = Some (''<?xml version="1.0" encoding="UTF-8" standalone="yes"?>\<newline>''
             @ ''<audio filename="foo.wav">\<newline>''
             @ (''       <slice start="0.000000" />\<newline>''
                @ ''       <slice start="0.000063" />\<newline>''
                @ ''       <slice start="0.009083" />\<newline>'')
             @ ''</audio>\<newline>'')
   \<and> 48000 \<le> INT_MAX
   \<and> (\<exists>starts. length starts = length [0, 67, 500 :: int]
         \<and> ''<?xml version="1.0" encoding="UTF-8" standalone="yes"?>\<newline>''
             @ ''<audio filename="foo.wav">\<newline>''
             @ (''       <slice start="0.000000" />\<newline>''
                @ ''       <slice start="0.000063" />\<newline>''
                @ ''       <slice start="0.009083" />\<newline>'')
             @ ''</audio>\<newline>''
           = xml_prolog @ audio_open ''foo''
               @ concat (map (\<lambda>s. slice_element s 48000) starts) @ audio_close)\<close>
proof -
  have e: \<open>slice_element 0 48000 = ''       <slice start="0.000000" />\<newline>''\<close>
    \<open>slice_element 3 48000 = ''       <slice start="0.000063" />\<newline>''\<close>
    \<open>slice_element 436 48000 = ''       <slice start="0.009083" />\<newline>''\<close>
    by (simp_all add: slice_element_def fixed6_def pad6_def digit_char_def double_eval)
  have "xml_slices 48000 1000 1000 [0, 67, 500]
    = Some (slice_element 0 48000 @ slice_element 3 48000 @ slice_element 436 48000)"
    by (simp add: raw_start_def marker_frame_def double_to_int_def c_round_def trunc_def
        int_add_def INT_MIN_def INT_MAX_def PREVIEW_LATENCY_COMPENSATION_def double_eval)
  then have s: \<open>xml_slices 48000 1000 1000 [0, 67, 500]
    = Some (''       <slice start="0.000000" />\<newline>''
            @ ''       <slice start="0.000063" />\<newline>''
            @ ''       <slice start="0.009083" />\<newline>'')\<close>
    by (simp only: e)
  have h: \<open>xml_document ''foo'' 48000 1000 1000 [0, 67, 500]
     = Some (''<?xml version="1.0" encoding="UTF-8" standalone="yes"?>\<newline>''
             @ ''<audio filename="foo.wav">\<newline>''
             @ (''       <slice start="0.000000" />\<newline>''
                @ ''       <slice start="0.000063" />\<newline>''
                @ ''       <slice start="0.009083" />\<newline>'')
             @ ''</audio>\<newline>'')\<close>
    unfolding xml_document_def s xml_prolog_def audio_open_def audio_close_def
    by simp
  have r: "48000 \<le> INT_MAX"
    by (simp add: INT_MAX_def)
  from xml_document_slices [OF h r] obtain starts where
    "length starts = length [0, 67, 500 :: int]"
    \<open>''<?xml version="1.0" encoding="UTF-8" standalone="yes"?>\<newline>''
             @ ''<audio filename="foo.wav">\<newline>''
             @ (''       <slice start="0.000000" />\<newline>''
                @ ''       <slice start="0.000063" />\<newline>''
                @ ''       <slice start="0.009083" />\<newline>'')
             @ ''</audio>\<newline>''
           = xml_prolog @ audio_open ''foo''
               @ concat (map (\<lambda>s. slice_element s 48000) starts) @ audio_close\<close>
    by (elim exE conjE)
  with h r show ?thesis
    by (intro conjI exI [of _ starts])
qed

text \<open>
  C10. Calling \<open>addSlice\<close> on an object that already holds 64 slices returns the object
  as it was: the slice list, \<open>tempo_val\<close>, \<open>trim_len\<close> and \<open>trim_end\<close> are all unchanged.
\<close>

theorem addSlice_full_unchanged:
  assumes "length (slices m) = 64"
  shows "addSlice m s e = m
       \<and> slices (addSlice m s e) = slices m
       \<and> tempo_val (addSlice m s e) = tempo_val m
       \<and> trim_len (addSlice m s e) = trim_len m
       \<and> trim_end (addSlice m s e) = trim_end m"
  using assms by (simp add: addSlice_def)

theorem addSlice_full_unchanged_witness:
  "length (slices \<lparr>tempo_val = 2880, trim_len = 25, trim_end = 88200,
                     slices = replicate 64 \<lparr>slice_start = 0, slice_end = 99\<rparr>\<rparr>) = 64
   \<and> addSlice \<lparr>tempo_val = 2880, trim_len = 25, trim_end = 88200,
                 slices = replicate 64 \<lparr>slice_start = 0, slice_end = 99\<rparr>\<rparr> 100 199
       = \<lparr>tempo_val = 2880, trim_len = 25, trim_end = 88200,
          slices = replicate 64 \<lparr>slice_start = 0, slice_end = 99\<rparr>\<rparr>"
  using addSlice_full_unchanged
    [of "\<lparr>tempo_val = 2880, trim_len = 25, trim_end = 88200,
          slices = replicate 64 \<lparr>slice_start = 0, slice_end = 99\<rparr>\<rparr>" 100 199]
  by simp

end
